theory Spec2Isabelle
  imports Main
begin

section \<open>The VK ingestion engine and the scheduled publisher of the EuroBot backend\<close>

text \<open>
  A shallow embedding of \<^verbatim>\<open>backend/app/routers/vk_integration.py\<close>, of the tables of
  \<^verbatim>\<open>backend/app/models/vk_integration.py\<close> and of \<^verbatim>\<open>scheduled_news_publisher\<close> in
  \<^verbatim>\<open>backend/app/main.py\<close>. The database session is an explicit state (a record of
  tables) that every operation takes and returns; an exception is a value of type
  \<open>error\<close>; the remote feed and the clock are inputs.
\<close>

subsection \<open>Python strings\<close>

text \<open>
  A Python \<^verbatim>\<open>str\<close> is a sequence of Unicode code points, so a string is a list of
  natural numbers and \<open>length\<close> counts what Python's \<^verbatim>\<open>len\<close> counts. \<open>lit\<close> writes an
  ASCII literal.
\<close>

type_synonym ustring = "nat list"

definition lit :: "string \<Rightarrow> ustring" where
  "lit s = map of_char s"

subsection \<open>The remote feed\<close>

text \<open>
  A post of \<^verbatim>\<open>wall.get\<close> is a JSON object read with \<^verbatim>\<open>post["id"]\<close>, \<^verbatim>\<open>post["date"]\<close>
  (both always present in the feed) and \<^verbatim>\<open>post.get\<close> for the rest, so an absent key is
  \<open>None\<close>. An attachment is read by its \<^verbatim>\<open>type\<close>; only photos and videos are looked at.
\<close>

record vk_size =
  url :: "ustring option"
  width :: "int option"
  height :: "int option"

record vk_video =
  v_player :: "ustring option"
  v_owner_id :: "int option"
  v_id :: "int option"
  v_access_key :: "ustring option"
  v_image :: "vk_size list option"
  v_photo :: "vk_size list option"

datatype attachment =
    Photo "vk_size list"
  | Video vk_video
  | Other_attachment

record vk_post =
  post_id :: int
  post_text :: "ustring option"
  post_date :: int
  marked_as_ads :: "int option"
  attachments :: "attachment list"

text \<open>
  The parameters of one \<^verbatim>\<open>wall.get\<close> call as \<^verbatim>\<open>fetch_vk_posts\<close> builds them, and what
  comes back: an exception of the HTTP client, a body with an \<^verbatim>\<open>error\<close> key (with its
  \<^verbatim>\<open>error_msg\<close>, if any), or a body whose items are
  \<^verbatim>\<open>data.get("response", {}).get("items", [])\<close>.
\<close>

record vk_request =
  req_count :: int
  req_access_token :: ustring
  req_v :: ustring
  req_owner_id :: "ustring option"
  req_domain :: "ustring option"

datatype vk_reply =
    Transport_failure
  | Api_error "ustring option"
  | Wall "vk_post list"

subsection \<open>What the code takes from outside\<close>

text \<open>
  What the code takes from outside its own text is a parameter of the model, collected in
  one record:
  \<^item> Python's character tables beyond ASCII (the classes \<^verbatim>\<open>\w\<close> and \<^verbatim>\<open>\d\<close> of \<^verbatim>\<open>re\<close>,
    the white space removed by \<^verbatim>\<open>str.strip\<close>, \<^verbatim>\<open>str.lower\<close>, \<^verbatim>\<open>str.isdigit\<close>); on ASCII
    the classes are written out below;
  \<^item> \<^verbatim>\<open>generate_slug\<close> of \<^verbatim>\<open>app/utils/slug.py\<close>, which is not among the sources;
  \<^item> the answer of the remote \<^verbatim>\<open>wall.get\<close> method to a request;
  \<^item> the option \<^verbatim>\<open>expire_on_commit\<close> of \<^verbatim>\<open>async_session_maker\<close> (\<^verbatim>\<open>app/database.py\<close>,
    which is not among the sources): whether a commit expires the rows a session has
    loaded.
\<close>

record env =
  tbl_word :: "nat \<Rightarrow> bool"
  tbl_digit :: "nat \<Rightarrow> bool"
  tbl_space :: "nat \<Rightarrow> bool"
  tbl_lower :: "ustring \<Rightarrow> ustring"
  tbl_isdigit :: "nat \<Rightarrow> bool"
  generate_slug :: "ustring \<Rightarrow> ustring"
  wall_get :: "vk_request \<Rightarrow> vk_reply"
  expire_on_commit :: bool

definition is_word :: "env \<Rightarrow> nat \<Rightarrow> bool" where
  "is_word E c =
     (if c < 128
      then (48 \<le> c \<and> c \<le> 57) \<or> (65 \<le> c \<and> c \<le> 90) \<or> c = 95 \<or> (97 \<le> c \<and> c \<le> 122)
      else tbl_word E c)"

definition is_digit :: "env \<Rightarrow> nat \<Rightarrow> bool" where
  "is_digit E c = (if c < 128 then 48 \<le> c \<and> c \<le> 57 else tbl_digit E c)"

definition is_space :: "env \<Rightarrow> nat \<Rightarrow> bool" where
  "is_space E c =
     (if c < 128 then (9 \<le> c \<and> c \<le> 13) \<or> (28 \<le> c \<and> c \<le> 32) else tbl_space E c)"

definition py_lower :: "env \<Rightarrow> ustring \<Rightarrow> ustring" where
  "py_lower E s =
     (if list_all (\<lambda>c. c < 128) s
      then map (\<lambda>c. if 65 \<le> c \<and> c \<le> 90 then c + 32 else c) s
      else tbl_lower E s)"

definition py_isdigit :: "env \<Rightarrow> ustring \<Rightarrow> bool" where
  "py_isdigit E s =
     (s \<noteq> [] \<and> list_all (\<lambda>c. if c < 128 then 48 \<le> c \<and> c \<le> 57 else tbl_isdigit E c) s)"

text \<open>\<^verbatim>\<open>s.strip()\<close>: white space removed at both ends.\<close>

definition py_strip :: "env \<Rightarrow> ustring \<Rightarrow> ustring" where
  "py_strip E s = rev (dropWhile (is_space E) (rev (dropWhile (is_space E) s)))"

text \<open>\<^verbatim>\<open>s.lstrip('#')\<close>: every leading \<^verbatim>\<open>#\<close> (code point 35) removed.\<close>

definition lstrip_hash :: "ustring \<Rightarrow> ustring" where
  "lstrip_hash s = dropWhile (\<lambda>c. c = 35) s"

text \<open>\<^verbatim>\<open>s.split('\n')[0]\<close>: the text before the first line feed (code point 10).\<close>

definition first_split_line :: "ustring \<Rightarrow> ustring" where
  "first_split_line s = takeWhile (\<lambda>c. c \<noteq> 10) s"

text \<open>
  \<^verbatim>\<open>s.rsplit(' ', 1)[0]\<close>: the text before the last space (code point 32), the whole of
  \<open>s\<close> when it has no space.
\<close>

definition rsplit_space_head :: "ustring \<Rightarrow> ustring" where
  "rsplit_space_head s =
     (if 32 \<in> set s then rev (tl (dropWhile (\<lambda>c. c \<noteq> 32) (rev s))) else s)"

text \<open>\<^verbatim>\<open>s.replace('\n', '<br/>')\<close>.\<close>

definition replace_newlines :: "ustring \<Rightarrow> ustring" where
  "replace_newlines s = concat (map (\<lambda>c. if c = 10 then lit ''<br/>'' else [c]) s)"

text \<open>\<^verbatim>\<open>str(n)\<close> for an integer, as the f-strings of the code render it.\<close>

fun str_nat :: "nat \<Rightarrow> ustring" where
  "str_nat n = (if n < 10 then [48 + n] else str_nat (n div 10) @ [48 + n mod 10])"

declare str_nat.simps [simp del]

definition str_int :: "int \<Rightarrow> ustring" where
  "str_int i = (if i < 0 then 45 # str_nat (nat (- i)) else str_nat (nat i))"

subsection \<open>Helpers of the content transformer\<close>

lemma length_dropWhile_less_Suc [termination_simp]:
  "length (dropWhile P xs) < Suc (length xs)"
  by (simp add: le_imp_less_Suc length_dropWhile_le)

text \<open>
  \<^verbatim>\<open>re.findall(r'#(\w+)', text)\<close>: scanning from the left, a \<^verbatim>\<open>#\<close> followed by at least
  one word character yields the longest run of word characters after it, and the scan
  goes on behind the run; any other character is passed over.
\<close>

fun extract_hashtags :: "env \<Rightarrow> ustring \<Rightarrow> ustring list" where
  "extract_hashtags E [] = []"
| "extract_hashtags E (c # cs) =
     (if c = 35 \<and> takeWhile (is_word E) cs \<noteq> []
      then takeWhile (is_word E) cs # extract_hashtags E (dropWhile (is_word E) cs)
      else extract_hashtags E cs)"

text \<open>\<^verbatim>\<open>re.sub(r'#\w+', '', text)\<close>: the same scan, deleting each match.\<close>

fun remove_hashtags :: "env \<Rightarrow> ustring \<Rightarrow> ustring" where
  "remove_hashtags E [] = []"
| "remove_hashtags E (c # cs) =
     (if c = 35 \<and> takeWhile (is_word E) cs \<noteq> []
      then remove_hashtags E (dropWhile (is_word E) cs)
      else c # remove_hashtags E cs)"

text \<open>
  A match of \<^verbatim>\<open>\[club\d+\|([^\]]+)\]\<close> (or of the same pattern with \<^verbatim>\<open>id\<close>) at the head
  of \<open>s\<close>: the bracket and the kind, the longest run of digits (at least one), a bar
  (code point 124, which is no digit, so a shorter run of digits cannot match either), the
  longest run of characters other than \<^verbatim>\<open>]\<close> (code point 93; at least one) and a closing
  bracket. The result is group 1 and the text behind the match.
\<close>

definition match_mention :: "env \<Rightarrow> ustring \<Rightarrow> ustring \<Rightarrow> (ustring \<times> ustring) option" where
  "match_mention E kind s =
     (let pre = 91 # kind;
          s1 = drop (length pre) s;
          s2 = dropWhile (is_digit E) s1;
          s3 = tl s2;
          label = takeWhile (\<lambda>c. c \<noteq> 93) s3;
          s4 = dropWhile (\<lambda>c. c \<noteq> 93) s3
      in if take (length pre) s = pre \<and> takeWhile (is_digit E) s1 \<noteq> [] \<and>
            s2 \<noteq> [] \<and> hd s2 = 124 \<and> label \<noteq> [] \<and> s4 \<noteq> []
         then Some (label, tl s4) else None)"

lemma match_mention_shorter:
  assumes "match_mention E kind s = Some (label, rest)"
  shows "length rest < length s"
proof -
  let ?s1 = "drop (Suc (length kind)) s"
  let ?s2 = "dropWhile (is_digit E) ?s1"
  let ?s4 = "dropWhile (\<lambda>c. c \<noteq> 93) (tl ?s2)"
  from assms have ne: "?s4 \<noteq> []" and r: "rest = tl ?s4"
    by (auto simp: match_mention_def Let_def split: if_splits)
  from ne have "length rest < length ?s4"
    using r by (cases ?s4) auto
  also have "length ?s4 \<le> length (tl ?s2)"
    by (rule length_dropWhile_le)
  also have "\<dots> \<le> length ?s2" by simp
  also have "\<dots> \<le> length ?s1" by (rule length_dropWhile_le)
  also have "\<dots> \<le> length s" by simp
  finally show ?thesis .
qed

text \<open>\<^verbatim>\<open>re.sub(pattern, r'\1', text)\<close>: each match, from the left, replaced by its group 1.\<close>

function sub_mention :: "env \<Rightarrow> ustring \<Rightarrow> ustring \<Rightarrow> ustring" where
  "sub_mention E kind [] = []"
| "sub_mention E kind (c # cs) =
     (case match_mention E kind (c # cs) of
        Some (label, rest) \<Rightarrow> label @ sub_mention E kind rest
      | None \<Rightarrow> c # sub_mention E kind cs)"
  by pat_completeness auto
termination
  by (relation "measure (\<lambda>(E, kind, s). length s)")
     (auto dest: match_mention_shorter)

definition clean_vk_text :: "env \<Rightarrow> ustring \<Rightarrow> ustring" where
  "clean_vk_text E txt =
     py_strip E (sub_mention E (lit ''id'') (sub_mention E (lit ''club'') txt))"

definition fallback_title :: ustring where
  "fallback_title =
     [1055, 1086, 1089, 1090, 32, 1042, 1050, 1086, 1085, 1090, 1072, 1082, 1090, 1077]"

definition make_title_from_text :: "env \<Rightarrow> ustring \<Rightarrow> nat \<Rightarrow> ustring" where
  "make_title_from_text E txt max_len =
     (let clean = clean_vk_text E txt;
          clean = py_strip E (remove_hashtags E clean);
          first_line = py_strip E (first_split_line clean);
          first_line =
            (if length first_line > max_len
             then rsplit_space_head (take max_len first_line) @ lit ''...''
             else first_line)
      in if first_line \<noteq> [] then first_line else fallback_title)"

subsection \<open>The tables\<close>

text \<open>
  The rows of \<^verbatim>\<open>vk_integrations\<close> and \<^verbatim>\<open>vk_imported_posts\<close> with the columns of
  \<^verbatim>\<open>models/vk_integration.py\<close> (the columns the database fills in by itself,
  \<^verbatim>\<open>imported_at\<close>, \<^verbatim>\<open>created_at\<close> and \<^verbatim>\<open>updated_at\<close>, are left out: no code reads them).
  A primary key is a natural number. A date is a count of seconds, in Moscow civil time
  where the code stores a naive \<^verbatim>\<open>datetime\<close>. The column \<^verbatim>\<open>hashtag_category_map\<close> holds
  the JSON text of a dictionary from strings to integers, written by \<^verbatim>\<open>json.dumps\<close> and
  read back by \<^verbatim>\<open>json.loads\<close>; it is modelled as the dictionary it serialises, a list of
  pairs in the order of the keys.
\<close>

record vk_integration =
  vi_id :: nat
  group_id :: ustring
  access_token :: ustring
  is_enabled :: bool
  mode :: ustring
  default_category_id :: "int option"
  auto_publish :: bool
  check_interval_minutes :: int
  fetch_count :: int
  hashtag_category_map :: "(ustring \<times> int) list option"
  last_checked_at :: "int option"

record vk_imported_post =
  ip_id :: nat
  vk_post_id :: int
  vk_integration_id :: nat
  news_id :: "nat option"
  vk_post_date :: "int option"

text \<open>
  Modelled from the spec: the \<^verbatim>\<open>News\<close> model of \<^verbatim>\<open>app/models/news.py\<close> is not among the
  sources; an article has the columns that \<^verbatim>\<open>import_vk_post\<close> writes and that
  \<^verbatim>\<open>scheduled_news_publisher\<close> reads (title, unique slug, excerpt, body, primary image,
  gallery, video reference, category reference, publish flag, publish timestamp, creation
  timestamp, and the scheduled publish time). A category is known by its key.
\<close>

record news =
  n_id :: nat
  title :: ustring
  slug :: ustring
  excerpt :: ustring
  content :: ustring
  featured_image :: "ustring option"
  video_url :: "ustring option"
  gallery :: "ustring list option"
  category_id :: "int option"
  is_published :: bool
  is_featured :: bool
  publish_date :: "int option"
  scheduled_publish_at :: "int option"
  created_at :: "int option"

text \<open>
  The database as a session sees it: the three tables in the order of insertion, the next
  value of each table's auto-increment key, and the keys of the category rows.
\<close>

record db =
  news_tbl :: "news list"
  news_seq :: nat
  imported_tbl :: "vk_imported_post list"
  imported_seq :: nat
  integrations_tbl :: "vk_integration list"
  integrations_seq :: nat
  categories :: "int list"

text \<open>
  Exceptions: \<^verbatim>\<open>MultipleResultsFound\<close> of \<^verbatim>\<open>scalar_one_or_none\<close>, an exception of the HTTP
  client, the exception of \<^verbatim>\<open>datetime.fromtimestamp\<close> on a time it cannot hold (a
  \<^verbatim>\<open>ValueError\<close>, an \<^verbatim>\<open>OverflowError\<close> or an \<^verbatim>\<open>OSError\<close>, by the size of the number),
  and \<^verbatim>\<open>HTTPException\<close> with its status code and detail (a text of the code, or
  \<^verbatim>\<open>str(e)\<close> of a caught exception).
\<close>

datatype exn = MultipleResultsFound | Request_error | Timestamp_error

datatype detail = Msg ustring | Str exn

datatype error = Raised exn | HTTPException nat detail

text \<open>\<^verbatim>\<open>result.scalar_one_or_none()\<close> on the rows a query selects.\<close>

definition scalar_one_or_none :: "'a list \<Rightarrow> error + 'a option" where
  "scalar_one_or_none rows =
     (case rows of
        [] \<Rightarrow> Inr None
      | [r] \<Rightarrow> Inr (Some r)
      | _ \<Rightarrow> Inl (Raised MultipleResultsFound))"

text \<open>\<^verbatim>\<open>db.get(News, k)\<close> and \<^verbatim>\<open>db.get(NewsCategory, k)\<close>: the row with the primary key.\<close>

definition get_news :: "db \<Rightarrow> nat \<Rightarrow> news option" where
  "get_news d k = find (\<lambda>n. n_id n = k) (news_tbl d)"

definition category_exists :: "db \<Rightarrow> int \<Rightarrow> bool" where
  "category_exists d k = (k \<in> set (categories d))"

subsection \<open>Category resolver\<close>

text \<open>
  The two loops of \<^verbatim>\<open>determine_category\<close>: the inner one over the items of the map for
  one lowered hashtag, the outer one over the hashtags.
\<close>

fun category_of_tag :: "env \<Rightarrow> db \<Rightarrow> ustring \<Rightarrow> (ustring \<times> int) list \<Rightarrow> int option" where
  "category_of_tag E d tag_lower [] = None"
| "category_of_tag E d tag_lower ((map_tag, cat_id) # items) =
     (if py_lower E (lstrip_hash map_tag) = tag_lower \<and> category_exists d cat_id
      then Some cat_id
      else category_of_tag E d tag_lower items)"

fun category_of_tags :: "env \<Rightarrow> db \<Rightarrow> (ustring \<times> int) list \<Rightarrow> ustring list \<Rightarrow> int option" where
  "category_of_tags E d hashtag_map [] = None"
| "category_of_tags E d hashtag_map (tag # hashtags) =
     (case category_of_tag E d (py_lower E tag) hashtag_map of
        Some cat_id \<Rightarrow> Some cat_id
      | None \<Rightarrow> category_of_tags E d hashtag_map hashtags)"

definition determine_category ::
  "env \<Rightarrow> ustring \<Rightarrow> (ustring \<times> int) list option \<Rightarrow> int option \<Rightarrow> db \<Rightarrow> int option" where
  "determine_category E txt hashtag_map default_category d =
     (case hashtag_map of
        None \<Rightarrow> default_category
      | Some m \<Rightarrow>
          if m = [] then default_category
          else (case category_of_tags E d m (extract_hashtags E txt) of
                  Some cat_id \<Rightarrow> Some cat_id
                | None \<Rightarrow> default_category))"

subsection \<open>Media of a post\<close>

text \<open>Python's truth of an optional string and of an optional integer.\<close>

definition truthy_str :: "ustring option \<Rightarrow> bool" where
  "truthy_str v = (case v of None \<Rightarrow> False | Some s \<Rightarrow> s \<noteq> [])"

definition truthy_int :: "int option \<Rightarrow> bool" where
  "truthy_int v = (case v of None \<Rightarrow> False | Some i \<Rightarrow> i \<noteq> 0)"

definition area :: "vk_size \<Rightarrow> int" where
  "area s =
     (case width s of None \<Rightarrow> 0 | Some w \<Rightarrow> w) * (case height s of None \<Rightarrow> 0 | Some h \<Rightarrow> h)"

text \<open>\<^verbatim>\<open>max(sizes, key=...)\<close> on a list with head \<open>best\<close>: the first variant of largest area.\<close>

fun max_by_area :: "vk_size \<Rightarrow> vk_size list \<Rightarrow> vk_size" where
  "max_by_area best [] = best"
| "max_by_area best (s # ss) = max_by_area (if area best < area s then s else best) ss"

definition get_url :: "vk_size \<Rightarrow> ustring" where
  "get_url s = (case url s of None \<Rightarrow> [] | Some u \<Rightarrow> u)"

text \<open>
  One round of the loop over the attachments, on the triple of \<^verbatim>\<open>featured_image\<close>,
  \<^verbatim>\<open>gallery_images\<close> and \<^verbatim>\<open>video_url\<close>.
\<close>

definition video_ext_url :: "vk_video \<Rightarrow> ustring" where
  "video_ext_url video =
     lit ''https://vk.com/video_ext.php?oid='' @ str_int (the (v_owner_id video)) @
     lit ''&id='' @ str_int (the (v_id video)) @
     (if truthy_str (v_access_key video) then lit ''&hash='' @ the (v_access_key video) else []) @
     lit ''&hd=2''"

definition thumb_images :: "vk_video \<Rightarrow> vk_size list" where
  "thumb_images video =
     (case v_image video of
        Some (t # ts) \<Rightarrow> t # ts
      | _ \<Rightarrow> (case v_photo video of Some (t # ts) \<Rightarrow> t # ts | _ \<Rightarrow> []))"

fun attach :: "attachment \<Rightarrow> ustring option \<times> ustring list \<times> ustring option \<Rightarrow>
    ustring option \<times> ustring list \<times> ustring option" where
  "attach (Photo sizes) (featured, gallery_images, video) =
     (case sizes of
        [] \<Rightarrow> (featured, gallery_images, video)
      | s # ss \<Rightarrow>
          (let img_url = get_url (max_by_area s ss)
           in if img_url = [] then (featured, gallery_images, video)
              else if \<not> truthy_str featured then (Some img_url, gallery_images, video)
              else (featured, gallery_images @ [img_url], video)))"
| "attach (Video v) (featured, gallery_images, video) =
     (if truthy_str video then (featured, gallery_images, video)
      else
        (let video' =
               (if truthy_str (v_player v) then v_player v
                else if truthy_int (v_owner_id v) \<and> truthy_int (v_id v)
                     then Some (video_ext_url v)
                     else video);
             featured' =
               (case thumb_images v of
                  [] \<Rightarrow> featured
                | t # ts \<Rightarrow>
                    if \<not> truthy_str featured then Some (get_url (max_by_area t ts))
                    else featured)
         in (featured', gallery_images, video')))"
| "attach Other_attachment m = m"

definition media_of :: "attachment list \<Rightarrow> ustring option \<times> ustring list \<times> ustring option" where
  "media_of atts = fold attach atts (None, [], None)"

subsection \<open>Slug resolver\<close>

lemma str_nat_not_Nil: "str_nat n \<noteq> []"
  by (subst str_nat.simps) simp

lemma str_nat_inj: "str_nat n = str_nat m \<Longrightarrow> n = m"
proof (induction n arbitrary: m rule: str_nat.induct)
  case (1 n)
  show ?case
  proof (cases "n < 10")
    case small_n: True
    show ?thesis
    proof (cases "m < 10")
      case True
      with small_n "1.prems" show ?thesis
        by (simp add: str_nat.simps [of n] str_nat.simps [of m])
    next
      case False
      with small_n "1.prems" str_nat_not_Nil [of "m div 10"] show ?thesis
        by (simp add: str_nat.simps [of n] str_nat.simps [of m] Cons_eq_append_conv)
    qed
  next
    case big_n: False
    show ?thesis
    proof (cases "m < 10")
      case True
      with big_n "1.prems" str_nat_not_Nil [of "n div 10"] show ?thesis
        by (simp add: str_nat.simps [of n] str_nat.simps [of m] append_eq_Cons_conv)
    next
      case False
      with big_n "1.prems" have "str_nat (n div 10) = str_nat (m div 10)"
        and r: "n mod 10 = m mod 10"
        by (simp_all add: str_nat.simps [of n] str_nat.simps [of m])
      with "1.IH" big_n have "n div 10 = m div 10" by simp
      with r show ?thesis
        by (metis div_mult_mod_eq)
    qed
  qed
qed

text \<open>The candidate \<^verbatim>\<open>f"{base_slug}-{counter}"\<close>.\<close>

definition numbered_slug :: "ustring \<Rightarrow> nat \<Rightarrow> ustring" where
  "numbered_slug base_slug counter = base_slug @ 45 # str_nat counter"

lemma inj_numbered_slug: "inj (numbered_slug b)"
  by (rule injI) (simp add: numbered_slug_def str_nat_inj)

text \<open>
  The counters from \<open>c\<close> on whose candidate is the slug of an article: finitely many, since
  the candidates differ from each other. Their number bounds the rounds left to the loop
  of \<^verbatim>\<open>ensure_unique_slug\<close>.
\<close>

definition later_taken :: "news list \<Rightarrow> ustring \<Rightarrow> nat \<Rightarrow> nat set" where
  "later_taken ns b c = {k. c \<le> k \<and> numbered_slug b k \<in> slug ` set ns}"

lemma finite_later_taken: "finite (later_taken ns b c)"
proof -
  have "later_taken ns b c \<subseteq> numbered_slug b -` (slug ` set ns)"
    by (auto simp: later_taken_def)
  moreover have "finite (numbered_slug b -` (slug ` set ns))"
    by (rule finite_vimageI) (simp_all add: inj_numbered_slug)
  ultimately show ?thesis by (rule finite_subset)
qed

lemma later_taken_step:
  "later_taken ns b c =
     (if numbered_slug b c \<in> slug ` set ns then insert c (later_taken ns b (Suc c))
      else later_taken ns b (Suc c))"
  by (auto simp: later_taken_def Suc_le_eq le_less)

lemma card_later_taken_step:
  "card (later_taken ns b c) =
     card (later_taken ns b (Suc c)) + (if numbered_slug b c \<in> slug ` set ns then 1 else 0)"
proof -
  have "c \<notin> later_taken ns b (Suc c)" by (simp add: later_taken_def)
  then show ?thesis
    by (subst later_taken_step) (simp add: finite_later_taken)
qed

text \<open>
  The loop of \<^verbatim>\<open>ensure_unique_slug\<close> on the articles of the session: the query
  \<^verbatim>\<open>select(News).where(News.slug == slug)\<close> read by \<^verbatim>\<open>scalar_one_or_none\<close> ends the loop
  when it finds no row, raises when it finds several, and otherwise the next candidate
  is tried.
\<close>

function ensure_unique_slug_loop ::
  "news list \<Rightarrow> ustring \<Rightarrow> nat \<Rightarrow> ustring \<Rightarrow> error + ustring" where
  "ensure_unique_slug_loop ns base_slug counter s =
     (case filter (\<lambda>n. slug n = s) ns of
        [] \<Rightarrow> Inr s
      | [n] \<Rightarrow> ensure_unique_slug_loop ns base_slug (Suc counter) (numbered_slug base_slug counter)
      | _ \<Rightarrow> Inl (Raised MultipleResultsFound))"
  by pat_completeness auto
termination
proof (relation "measure (\<lambda>(ns, b, c, s).
    card (later_taken ns b c) + (if s \<in> slug ` set ns then 1 else 0))", goal_cases)
  case 1
  show ?case by simp
next
  case (2 ns b c s n)
  then have "n \<in> set (filter (\<lambda>n. slug n = s) ns)" by simp
  then have "s \<in> slug ` set ns" by auto
  then show ?case
    by (simp add: card_later_taken_step [of ns b c])
qed

declare ensure_unique_slug_loop.simps [simp del]

definition ensure_unique_slug :: "ustring \<Rightarrow> db \<Rightarrow> error + ustring" where
  "ensure_unique_slug s d = ensure_unique_slug_loop (news_tbl d) s 1 s"

subsection \<open>Import orchestrator\<close>

text \<open>
  The query of \<^verbatim>\<open>import_vk_post\<close> for the ledger rows of a post under an integration, the
  test \<^verbatim>\<open>existing_record.news_id\<close> followed by \<^verbatim>\<open>db.get(News, ...)\<close> (a key of 0 is false
  in Python), and \<^verbatim>\<open>db.delete(existing_record)\<close>.
\<close>

definition existing_records :: "vk_post \<Rightarrow> vk_integration \<Rightarrow> db \<Rightarrow> vk_imported_post list" where
  "existing_records post integration d =
     filter (\<lambda>r. vk_post_id r = post_id post \<and> vk_integration_id r = vi_id integration)
       (imported_tbl d)"

definition linked_news_exists :: "db \<Rightarrow> vk_imported_post \<Rightarrow> bool" where
  "linked_news_exists d r =
     (case news_id r of
        None \<Rightarrow> False
      | Some k \<Rightarrow> k \<noteq> 0 \<and> get_news d k \<noteq> None)"

definition delete_imported :: "vk_imported_post \<Rightarrow> db \<Rightarrow> db" where
  "delete_imported r d = d\<lparr>imported_tbl := filter (\<lambda>x. ip_id x \<noteq> ip_id r) (imported_tbl d)\<rparr>"

text \<open>
  \<^verbatim>\<open>datetime.fromtimestamp(ts, tz=MOSCOW_TZ)\<close> returns when the time lies in the years 1 to
  9999 both in UTC and three hours later, that is from second \<open>-62135596800\<close> of the epoch
  on and with \<open>ts + 10800\<close> at most \<open>253402300799\<close>; on any other number it raises.
\<close>

definition valid_timestamp :: "int \<Rightarrow> bool" where
  "valid_timestamp ts = (- 62135596800 \<le> ts \<and> ts + 10800 \<le> 253402300799)"

text \<open>
  Lines 206 to 289 of \<^verbatim>\<open>import_vk_post\<close>: the draft, the unique slug, the article and its
  ledger row. The article takes the next key of its table at \<^verbatim>\<open>db.flush()\<close>, the ledger
  row at the next flush of the session, which a session makes before its next query. The
  post's date, in seconds since the epoch, becomes Moscow civil time by adding three
  hours, and line 257 raises when \<^verbatim>\<open>datetime\<close> cannot hold it. Every function returns the
  session together with its result, also when it raises.
\<close>

definition create_article ::
  "env \<Rightarrow> vk_post \<Rightarrow> ustring \<Rightarrow> vk_integration \<Rightarrow> db \<Rightarrow> (error + news option) \<times> db" where
  "create_article E post txt integration d =
     (let hashtag_map = hashtag_category_map integration;
          cat = determine_category E txt hashtag_map (default_category_id integration) d;
          ttl = make_title_from_text E txt 150;
          cont = clean_vk_text E txt;
          content_html = replace_newlines cont;
          (featured, gallery_images, video) = media_of (attachments post);
          gallery_json = (if gallery_images = [] then None else Some gallery_images);
          pdate = post_date post + 10800;
          s0 = generate_slug E ttl;
          s1 = (if s0 = [] then lit ''vk-post-'' @ str_int (post_id post) else s0)
      in if \<not> valid_timestamp (post_date post) then (Inl (Raised Timestamp_error), d)
         else case ensure_unique_slug s1 d of
           Inl e \<Rightarrow> (Inl e, d)
         | Inr s \<Rightarrow>
             (let article =
                    \<lparr>n_id = news_seq d, title = ttl, slug = s, excerpt = take 300 cont,
                     content = content_html, featured_image = featured, video_url = video,
                     gallery = gallery_json, category_id = cat,
                     is_published = auto_publish integration,
                     is_featured = auto_publish integration,
                     publish_date = (if auto_publish integration then Some pdate else None),
                     scheduled_publish_at = None, created_at = Some pdate\<rparr>;
                  imported =
                    \<lparr>ip_id = imported_seq d, vk_post_id = post_id post,
                     vk_integration_id = vi_id integration, news_id = Some (n_id article),
                     vk_post_date = Some pdate\<rparr>
              in (Inr (Some article),
                  d\<lparr>news_tbl := news_tbl d @ [article], news_seq := Suc (news_seq d),
                    imported_tbl := imported_tbl d @ [imported],
                    imported_seq := Suc (imported_seq d)\<rparr>)))"

definition import_vk_post ::
  "env \<Rightarrow> vk_post \<Rightarrow> vk_integration \<Rightarrow> db \<Rightarrow> (error + news option) \<times> db" where
  "import_vk_post E post integration d =
     (let txt = (case post_text post of None \<Rightarrow> [] | Some t \<Rightarrow> t)
      in if txt = [] then (Inr None, d)
         else (case scalar_one_or_none (existing_records post integration d) of
                 Inl e \<Rightarrow> (Inl e, d)
               | Inr None \<Rightarrow> create_article E post txt integration d
               | Inr (Some existing_record) \<Rightarrow>
                   if linked_news_exists d existing_record then (Inr None, d)
                   else create_article E post txt integration
                          (delete_imported existing_record d)))"

text \<open>
  The loop over the posts of a batch, the same text in \<^verbatim>\<open>vk_fetch_task\<close> (lines 325 to
  330) and in \<^verbatim>\<open>fetch_now\<close> (lines 563 to 568): a post marked as an advertisement is
  passed over, every other post goes to \<^verbatim>\<open>import_vk_post\<close>, and the articles made are
  counted. An exception ends the loop.
\<close>

fun import_posts ::
  "env \<Rightarrow> vk_integration \<Rightarrow> vk_post list \<Rightarrow> nat \<Rightarrow> db \<Rightarrow> (error + nat) \<times> db" where
  "import_posts E integration [] imported_count d = (Inr imported_count, d)"
| "import_posts E integration (post # posts) imported_count d =
     (if truthy_int (marked_as_ads post)
      then import_posts E integration posts imported_count d
      else (case import_vk_post E post integration d of
              (Inl e, d') \<Rightarrow> (Inl e, d')
            | (Inr made, d') \<Rightarrow>
                import_posts E integration posts
                  (if made \<noteq> None then Suc imported_count else imported_count) d'))"

subsection \<open>Source client and the two triggers\<close>

definition fetch_vk_posts :: "env \<Rightarrow> ustring \<Rightarrow> ustring \<Rightarrow> int \<Rightarrow> vk_request \<times> vk_reply" where
  "fetch_vk_posts E gid token n =
     (let req =
            \<lparr>req_count = n, req_access_token = token, req_v = lit ''5.199'',
             req_owner_id = (if py_isdigit E gid then Some (45 # gid) else None),
             req_domain = (if py_isdigit E gid then None else Some gid)\<rparr>
      in (req, wall_get E req))"

text \<open>\<^verbatim>\<open>integration.fetch_count or 20\<close>.\<close>

definition batch_size :: "vk_integration \<Rightarrow> int" where
  "batch_size integration = (if fetch_count integration = 0 then 20 else fetch_count integration)"

text \<open>\<^verbatim>\<open>integration.last_checked_at = ...\<close> on the row of the session.\<close>

definition set_last_checked :: "nat \<Rightarrow> int \<Rightarrow> db \<Rightarrow> db" where
  "set_last_checked k now d =
     d\<lparr>integrations_tbl :=
         map (\<lambda>i. if vi_id i = k then i\<lparr>last_checked_at := Some now\<rparr> else i)
           (integrations_tbl d)\<rparr>"

text \<open>
  The test of the ingestion loop on the minutes since the checkpoint,
  \<^verbatim>\<open>(now - last_checked_at).total_seconds() / 60 < check_interval_minutes\<close>, on whole
  seconds; the checkpoint is the naive Moscow time that the code itself stores.
\<close>

definition throttled :: "int \<Rightarrow> vk_integration \<Rightarrow> bool" where
  "throttled now integration =
     (case last_checked_at integration of
        None \<Rightarrow> False
      | Some t \<Rightarrow> now - t < 60 * check_interval_minutes integration)"

text \<open>
  How one round of the loop of \<^verbatim>\<open>vk_fetch_task\<close> over the integrations ends: the
  integration is passed over by the throttle; an error body is logged (\<^verbatim>\<open>continue\<close>); an
  exception inside the \<^verbatim>\<open>try\<close> is logged and the session rolled back; or the batch is
  committed.
\<close>

datatype round_end = Skipped | Error_body | Rolled_back | Committed

text \<open>
  One round, at the reading \<open>now\<close> of the clock: how it ends, the new session and the
  requests sent. A rollback leaves the session as it was before the round.
\<close>

definition poll_integration ::
  "env \<Rightarrow> int \<Rightarrow> vk_integration \<Rightarrow> db \<Rightarrow> round_end \<times> db \<times> vk_request list" where
  "poll_integration E now integration d =
     (if throttled now integration then (Skipped, d, [])
      else
        (let (req, reply) =
               fetch_vk_posts E (group_id integration) (access_token integration)
                 (batch_size integration)
         in case reply of
              Transport_failure \<Rightarrow> (Rolled_back, d, [req])
            | Api_error msg \<Rightarrow> (Error_body, d, [req])
            | Wall posts \<Rightarrow>
                (case import_posts E integration posts 0 d of
                   (Inl e, d') \<Rightarrow> (Rolled_back, d, [req])
                 | (Inr imported_count, d') \<Rightarrow>
                     (Committed, set_last_checked (vi_id integration) now d', [req]))))"

text \<open>
  Whether the loop reaches the next integration. \<^verbatim>\<open>session.rollback()\<close> expires every row
  the session has loaded, and so does \<^verbatim>\<open>session.commit()\<close> when \<^verbatim>\<open>expire_on_commit\<close> is
  set; the next read of an attribute of an integration (line 309 for the next integration,
  outside the inner \<^verbatim>\<open>try\<close>) then raises in the asynchronous session, and the handler of
  the outer \<^verbatim>\<open>try\<close> ends the tick.
\<close>

definition tick_goes_on :: "env \<Rightarrow> round_end \<Rightarrow> bool" where
  "tick_goes_on E r =
     (case r of
        Skipped \<Rightarrow> True
      | Error_body \<Rightarrow> True
      | Rolled_back \<Rightarrow> False
      | Committed \<Rightarrow> \<not> expire_on_commit E)"

fun poll_all ::
  "env \<Rightarrow> (nat \<Rightarrow> int) \<Rightarrow> nat \<Rightarrow> vk_integration list \<Rightarrow> db \<Rightarrow> db \<times> vk_request list" where
  "poll_all E clock i [] d = (d, [])"
| "poll_all E clock i (integration # integrations) d =
     (case poll_integration E (clock i) integration d of
        (r, d', reqs) \<Rightarrow>
          if tick_goes_on E r
          then (case poll_all E clock (Suc i) integrations d' of
                  (d'', reqs') \<Rightarrow> (d'', reqs @ reqs'))
          else (d', reqs))"

text \<open>\<^verbatim>\<open>select(VKIntegration).where(VKIntegration.mode == "auto")\<close>.\<close>

definition auto_integrations :: "db \<Rightarrow> vk_integration list" where
  "auto_integrations d = filter (\<lambda>i. mode i = lit ''auto'') (integrations_tbl d)"

text \<open>
  One tick of \<^verbatim>\<open>vk_fetch_task\<close> (the body of its \<^verbatim>\<open>while True\<close> after the sleep): the
  integrations in mode \<^verbatim>\<open>auto\<close> are selected, and \<open>clock i\<close> is what the clock shows in
  round \<open>i\<close>.
\<close>

definition vk_fetch_tick :: "env \<Rightarrow> (nat \<Rightarrow> int) \<Rightarrow> db \<Rightarrow> db \<times> vk_request list" where
  "vk_fetch_tick E clock d = poll_all E clock 0 (auto_integrations d) d"

definition off_detail :: ustring where
  "off_detail =
     [1048, 1085, 1090, 1077, 1075, 1088, 1072, 1094, 1080, 1103, 32, 1074, 1099, 1082, 1083,
      1102, 1095, 1077, 1085, 1072, 46, 32, 1042, 1099, 1073, 1077, 1088, 1080, 1090, 1077, 32,
      1088, 1077, 1078, 1080, 1084, 32, 1040, 1074, 1090, 1086, 32, 1080, 1083, 1080, 32, 1042,
      1088, 1091, 1095, 1085, 1091, 1102, 46]"

text \<open>
  \<^verbatim>\<open>fetch_now\<close>: the answer (an \<^verbatim>\<open>HTTPException\<close>, or the numbers \<^verbatim>\<open>imported\<close> and
  \<^verbatim>\<open>total_checked\<close>), the session as the handler leaves it, and the requests sent.
  \<^verbatim>\<open>select(VKIntegration).limit(1)\<close> gives the first row of the table.
\<close>

definition fetch_now :: "env \<Rightarrow> int \<Rightarrow> db \<Rightarrow> (error + nat \<times> nat) \<times> db \<times> vk_request list" where
  "fetch_now E now d =
     (case integrations_tbl d of
        [] \<Rightarrow> (Inl (HTTPException 404 (Msg (lit ''VK integration not configured''))), d, [])
      | integration # _ \<Rightarrow>
          if mode integration = lit ''off''
          then (Inl (HTTPException 400 (Msg off_detail)), d, [])
          else
            (let (req, reply) =
                   fetch_vk_posts E (group_id integration) (access_token integration)
                     (batch_size integration)
             in case reply of
                  Transport_failure \<Rightarrow> (Inl (HTTPException 500 (Str Request_error)), d, [req])
                | Api_error msg \<Rightarrow>
                    (Inl (HTTPException 400
                       (Msg (lit ''VK API: '' @
                             (case msg of None \<Rightarrow> lit ''Unknown error'' | Some m \<Rightarrow> m)))),
                     d, [req])
                | Wall posts \<Rightarrow>
                    (case import_posts E integration posts 0 d of
                       (Inl (Raised x), d') \<Rightarrow> (Inl (HTTPException 500 (Str x)), d', [req])
                     | (Inl (HTTPException c m), d') \<Rightarrow> (Inl (HTTPException c m), d', [req])
                     | (Inr imported_count, d') \<Rightarrow>
                         (Inr (imported_count, length posts),
                          set_last_checked (vi_id integration) now d', [req]))))"

subsection \<open>Configuration operations\<close>

text \<open>The request bodies \<^verbatim>\<open>VKIntegrationCreate\<close> and \<^verbatim>\<open>VKIntegrationUpdate\<close>.\<close>

record vk_integration_create =
  c_group_id :: ustring
  c_access_token :: ustring
  c_mode :: ustring
  c_default_category_id :: "int option"
  c_auto_publish :: bool
  c_check_interval_minutes :: int
  c_fetch_count :: int
  c_hashtag_category_map :: "(ustring \<times> int) list option"

record vk_integration_update =
  u_group_id :: "ustring option"
  u_access_token :: "ustring option"
  u_mode :: "ustring option"
  u_default_category_id :: "int option"
  u_auto_publish :: "bool option"
  u_check_interval_minutes :: "int option"
  u_fetch_count :: "int option"
  u_hashtag_category_map :: "(ustring \<times> int) list option"

text \<open>
  \<^verbatim>\<open>db.delete(integration)\<close>: the relationship \<^verbatim>\<open>imported_posts\<close> is declared with
  \<^verbatim>\<open>cascade="all, delete-orphan"\<close> (and the foreign key with \<^verbatim>\<open>ondelete="CASCADE"\<close>), so
  the ledger rows of the integration go with it. No article is touched.
\<close>

definition delete_integration :: "vk_integration \<Rightarrow> db \<Rightarrow> db" where
  "delete_integration old d =
     d\<lparr>integrations_tbl := filter (\<lambda>i. vi_id i \<noteq> vi_id old) (integrations_tbl d),
       imported_tbl := filter (\<lambda>r. vk_integration_id r \<noteq> vi_id old) (imported_tbl d)\<rparr>"

text \<open>
  \<^verbatim>\<open>create_vk_integration\<close>: the row it stores and the new session. The column
  \<^verbatim>\<open>is_enabled\<close> takes its default, \<^verbatim>\<open>last_checked_at\<close> is null.
\<close>

definition create_vk_integration :: "vk_integration_create \<Rightarrow> db \<Rightarrow> vk_integration \<times> db" where
  "create_vk_integration data d =
     (let d1 = (case integrations_tbl d of [] \<Rightarrow> d | old # _ \<Rightarrow> delete_integration old d);
          hashtag_json =
            (case c_hashtag_category_map data of
               None \<Rightarrow> None
             | Some m \<Rightarrow> if m = [] then None else Some m);
          integration =
            \<lparr>vi_id = integrations_seq d1, group_id = c_group_id data,
             access_token = c_access_token data, is_enabled = False, mode = c_mode data,
             default_category_id = c_default_category_id data,
             auto_publish = c_auto_publish data,
             check_interval_minutes = c_check_interval_minutes data,
             fetch_count = c_fetch_count data, hashtag_category_map = hashtag_json,
             last_checked_at = None\<rparr>
      in (integration,
          d1\<lparr>integrations_tbl := integrations_tbl d1 @ [integration],
             integrations_seq := Suc (integrations_seq d1)\<rparr>))"

definition apply_update :: "vk_integration_update \<Rightarrow> vk_integration \<Rightarrow> vk_integration" where
  "apply_update data i0 =
     (let i1 = (case u_group_id data of None \<Rightarrow> i0 | Some v \<Rightarrow> i0\<lparr>group_id := v\<rparr>);
          i2 = (case u_access_token data of None \<Rightarrow> i1 | Some v \<Rightarrow> i1\<lparr>access_token := v\<rparr>);
          i3 = (case u_default_category_id data of
                  None \<Rightarrow> i2 | Some v \<Rightarrow> i2\<lparr>default_category_id := Some v\<rparr>);
          i4 = (case u_mode data of
                  None \<Rightarrow> i3
                | Some v \<Rightarrow>
                    if v \<in> set [lit ''off'', lit ''auto'', lit ''manual'']
                    then i3\<lparr>mode := v\<rparr> else i3);
          i5 = (case u_auto_publish data of None \<Rightarrow> i4 | Some v \<Rightarrow> i4\<lparr>auto_publish := v\<rparr>);
          i6 = (case u_check_interval_minutes data of
                  None \<Rightarrow> i5 | Some v \<Rightarrow> i5\<lparr>check_interval_minutes := v\<rparr>);
          i7 = (case u_fetch_count data of
                  None \<Rightarrow> i6 | Some v \<Rightarrow> i6\<lparr>fetch_count := max 1 (min 100 v)\<rparr>);
          i8 = (case u_hashtag_category_map data of
                  None \<Rightarrow> i7 | Some v \<Rightarrow> i7\<lparr>hashtag_category_map := Some v\<rparr>)
      in i8)"

definition update_vk_integration ::
  "vk_integration_update \<Rightarrow> db \<Rightarrow> error + vk_integration \<times> db" where
  "update_vk_integration data d =
     (case integrations_tbl d of
        [] \<Rightarrow> Inl (HTTPException 404 (Msg (lit ''VK integration not configured'')))
      | integration # rest \<Rightarrow>
          Inr (apply_update data integration,
               d\<lparr>integrations_tbl := apply_update data integration # rest\<rparr>))"

subsection \<open>Scheduled publisher\<close>

text \<open>
  The query of \<^verbatim>\<open>scheduled_news_publisher\<close>: the articles with the publish flag unset and
  a scheduled time, not null, at or before \<open>now\<close>.
\<close>

definition due :: "int \<Rightarrow> news \<Rightarrow> bool" where
  "due now n =
     (\<not> is_published n \<and> (case scheduled_publish_at n of None \<Rightarrow> False | Some t \<Rightarrow> t \<le> now))"

definition publish :: "int \<Rightarrow> news \<Rightarrow> news" where
  "publish now n = n\<lparr>is_published := True, publish_date := Some now\<rparr>"

text \<open>
  One tick of \<^verbatim>\<open>scheduled_news_publisher\<close> (the body of its \<^verbatim>\<open>while True\<close> after the
  sleep), at the reading \<open>now\<close> of the clock.
\<close>

definition publisher_tick :: "int \<Rightarrow> db \<Rightarrow> db" where
  "publisher_tick now d =
     d\<lparr>news_tbl := map (\<lambda>n. if due now n then publish now n else n) (news_tbl d)\<rparr>"

text \<open>
  The loop of \<^verbatim>\<open>scheduled_news_publisher\<close>: one tick after the other, at the readings
  of the clock in the list.
\<close>

fun publisher_loop :: "int list \<Rightarrow> db \<Rightarrow> db" where
  "publisher_loop [] d = d"
| "publisher_loop (now # nows) d = publisher_loop nows (publisher_tick now d)"

section \<open>Invariant and examples\<close>

text \<open>
  The constraints of the tables that the properties below rest on: every primary key is
  below the next value of its auto-increment counter and occurs once, the key of an
  article is positive, no two articles share a slug, and the ledger holds at most one row
  for a post under an integration. The empty database satisfies them and the operations
  modelled here keep them.
\<close>

definition wf_db :: "db \<Rightarrow> bool" where
  "wf_db d =
     (0 < news_seq d \<and>
      list_all (\<lambda>n. 0 < n_id n \<and> n_id n < news_seq d) (news_tbl d) \<and>
      distinct (map n_id (news_tbl d)) \<and>
      distinct (map slug (news_tbl d)) \<and>
      list_all (\<lambda>r. ip_id r < imported_seq d) (imported_tbl d) \<and>
      distinct (map ip_id (imported_tbl d)) \<and>
      distinct (map (\<lambda>r. (vk_post_id r, vk_integration_id r)) (imported_tbl d)) \<and>
      list_all (\<lambda>i. vi_id i < integrations_seq d) (integrations_tbl d) \<and>
      distinct (map vi_id (integrations_tbl d)))"

text \<open>
  The ledger row that \<^verbatim>\<open>import_vk_post\<close> adds for an article, and the session with the
  article and the row added.
\<close>

definition ledger_row :: "db \<Rightarrow> vk_post \<Rightarrow> vk_integration \<Rightarrow> news \<Rightarrow> vk_imported_post" where
  "ledger_row d post integration a =
     \<lparr>ip_id = imported_seq d, vk_post_id = post_id post,
      vk_integration_id = vi_id integration, news_id = Some (n_id a),
      vk_post_date = Some (post_date post + 10800)\<rparr>"

definition with_article :: "news \<Rightarrow> vk_imported_post \<Rightarrow> db \<Rightarrow> db" where
  "with_article a r d =
     d\<lparr>news_tbl := news_tbl d @ [a], news_seq := Suc (news_seq d),
       imported_tbl := imported_tbl d @ [r], imported_seq := Suc (imported_seq d)\<rparr>"

text \<open>
  The ledger holds one row for the post under the integration, and the article it links
  exists.
\<close>

definition imported_once :: "vk_post \<Rightarrow> vk_integration \<Rightarrow> db \<Rightarrow> bool" where
  "imported_once post integration d =
     (case existing_records post integration d of
        [r] \<Rightarrow> linked_news_exists d r
      | _ \<Rightarrow> False)"

text \<open>
  Inputs for the examples: an environment whose tables hold no character beyond ASCII,
  whose \<^verbatim>\<open>generate_slug\<close> writes a hyphen for each space, whose feed is empty and
  whose sessions keep their rows after a commit; the empty database; rows of the three
  tables; a post with a text, and one dated beyond the year 9999.
\<close>

definition test_env :: env where
  "test_env =
     \<lparr>tbl_word = (\<lambda>c. False), tbl_digit = (\<lambda>c. False), tbl_space = (\<lambda>c. False),
      tbl_lower = (\<lambda>s. s), tbl_isdigit = (\<lambda>c. False),
      generate_slug = map (\<lambda>c. if c = 32 then 45 else c),
      wall_get = (\<lambda>req. Wall []), expire_on_commit = False\<rparr>"

definition empty_db :: db where
  "empty_db =
     \<lparr>news_tbl = [], news_seq = 1, imported_tbl = [], imported_seq = 1,
      integrations_tbl = [], integrations_seq = 1, categories = []\<rparr>"

definition article :: "nat \<Rightarrow> ustring \<Rightarrow> bool \<Rightarrow> int option \<Rightarrow> news" where
  "article k s p at =
     \<lparr>n_id = k, title = s, slug = s, excerpt = s, content = s, featured_image = None,
      video_url = None, gallery = None, category_id = None, is_published = p,
      is_featured = False, publish_date = None, scheduled_publish_at = at,
      created_at = None\<rparr>"

definition integ :: "nat \<Rightarrow> ustring \<Rightarrow> vk_integration" where
  "integ k m =
     \<lparr>vi_id = k, group_id = lit ''examplegroup'', access_token = lit ''secret'',
      is_enabled = False, mode = m, default_category_id = Some 3, auto_publish = True,
      check_interval_minutes = 10, fetch_count = 5,
      hashtag_category_map = Some [(lit ''#results'', 7)], last_checked_at = None\<rparr>"

definition text_post :: "int \<Rightarrow> ustring \<Rightarrow> vk_post" where
  "text_post k t =
     \<lparr>post_id = k, post_text = Some t, post_date = 1700000000, marked_as_ads = None,
      attachments = []\<rparr>"

definition far_post :: "int \<Rightarrow> ustring \<Rightarrow> vk_post" where
  "far_post k t = (text_post k t)\<lparr>post_date := 1000000000000\<rparr>"

definition ledger :: "nat \<Rightarrow> int \<Rightarrow> nat \<Rightarrow> nat option \<Rightarrow> vk_imported_post" where
  "ledger k p i n =
     \<lparr>ip_id = k, vk_post_id = p, vk_integration_id = i, news_id = n, vk_post_date = None\<rparr>"

definition imported_db :: db where
  "imported_db =
     empty_db\<lparr>news_tbl := [article 1 (lit ''hello'') True None], news_seq := 2,
       imported_tbl := [ledger 1 7 1 (Some 1)], imported_seq := 2,
       integrations_tbl := [integ 1 (lit ''auto'')], integrations_seq := 2\<rparr>"

definition stale_db :: db where
  "stale_db =
     empty_db\<lparr>news_tbl := [article 1 (lit ''hello'') True None], news_seq := 3,
       imported_tbl := [ledger 1 7 1 (Some 2), ledger 2 8 1 (Some 1)], imported_seq := 3,
       integrations_tbl := [integ 1 (lit ''auto'')], integrations_seq := 2\<rparr>"

definition scheduled_db :: db where
  "scheduled_db = empty_db\<lparr>news_tbl := [article 1 (lit ''a'') False (Some 50), article 2 (lit ''b'') False (Some 150),
           article 3 (lit ''c'') True (Some 10), article 4 (lit ''d'') False None], news_seq := 5\<rparr>"

text \<open>
  The line a title is made from: the cleaned text without its hashtags, stripped, cut at
  the first line feed and stripped again.
\<close>

definition title_line :: "env \<Rightarrow> ustring \<Rightarrow> ustring" where
  "title_line E t =
     py_strip E (first_split_line (py_strip E (remove_hashtags E (clean_vk_text E t))))"


text \<open>The request that a trigger sends for an integration.\<close>

definition request_of :: "env \<Rightarrow> vk_integration \<Rightarrow> vk_request" where
  "request_of E i = fst (fetch_vk_posts E (group_id i) (access_token i) (batch_size i))"

text \<open>
  Further inputs for the examples: a post marked as an advertisement, a post without a
  text, a line of 161 characters with one space, a feed with a fixed answer, a database
  whose integration was last checked at a given time, a database with two integrations in
  mode \<^verbatim>\<open>auto\<close> around one in mode \<^verbatim>\<open>manual\<close>, and a database with one category.
\<close>

definition ad_post :: "int \<Rightarrow> ustring \<Rightarrow> vk_post" where
  "ad_post k t = (text_post k t)\<lparr>marked_as_ads := Some 1\<rparr>"

definition silent_post :: "int \<Rightarrow> vk_post" where
  "silent_post k = (text_post k [])\<lparr>post_text := None\<rparr>"

definition long_text :: ustring where
  "long_text = replicate 100 97 @ 32 # replicate 60 98"

definition feed_env :: "vk_reply \<Rightarrow> env" where
  "feed_env reply = test_env\<lparr>wall_get := (\<lambda>req. reply)\<rparr>"

definition checked_db :: "int \<Rightarrow> db" where
  "checked_db t =
     imported_db\<lparr>integrations_tbl := [(integ 1 (lit ''auto''))\<lparr>last_checked_at := Some t\<rparr>]\<rparr>"



text \<open>
  Databases whose integration is in mode \<^verbatim>\<open>manual\<close> and in mode \<^verbatim>\<open>off\<close>, and a request
  body for \<^verbatim>\<open>create_vk_integration\<close> with a given fetch count.
\<close>

definition manual_db :: db where
  "manual_db = imported_db\<lparr>integrations_tbl := [integ 1 (lit ''manual'')]\<rparr>"

definition off_db :: db where
  "off_db = imported_db\<lparr>integrations_tbl := [integ 1 (lit ''off'')]\<rparr>"

definition example_create :: "int \<Rightarrow> vk_integration_create" where
  "example_create n =
     \<lparr>c_group_id = lit ''examplegroup'', c_access_token = lit ''secret'',
      c_mode = lit ''auto'', c_default_category_id = None, c_auto_publish = True,
      c_check_interval_minutes = 10, c_fetch_count = n, c_hashtag_category_map = None\<rparr>"

section \<open>Properties\<close>

subsection \<open>The invariant and the import of one post\<close>

lemma filter_key_distinct:
  "distinct (map f xs) \<Longrightarrow> length (filter (\<lambda>x. f x = v) xs) \<le> 1"
proof (induction xs)
  case Nil
  then show ?case by simp
next
  case (Cons x xs)
  show ?case
  proof (cases "f x = v")
    case True
    from Cons.prems have "f x \<notin> f ` set xs" by simp
    with True have "\<forall>y\<in>set xs. f y \<noteq> v" by blast
    then have "filter (\<lambda>x. f x = v) xs = []"
      by (simp add: filter_empty_conv)
    with True show ?thesis by simp
  next
    case False
    with Cons show ?thesis by simp
  qed
qed

lemma slug_loop_returns:
  "distinct (map slug ns) \<Longrightarrow>
   \<exists>s'. ensure_unique_slug_loop ns b c s = Inr s' \<and> s' \<notin> slug ` set ns"
proof (induction ns b c s rule: ensure_unique_slug_loop.induct)
  case (1 ns b c s)
  from "1.prems" have le: "length (filter (\<lambda>n. slug n = s) ns) \<le> 1"
    by (rule filter_key_distinct)
  show ?case
  proof (cases "filter (\<lambda>n. slug n = s) ns")
    case Nil
    then have "s \<notin> slug ` set ns"
      by (auto simp: filter_empty_conv)
    with Nil show ?thesis
      by (simp add: ensure_unique_slug_loop.simps [of ns b c s])
  next
    case (Cons n rest)
    with le have rest: "rest = []" by simp
    with Cons "1.IH" [of n rest] "1.prems" show ?thesis
      by (simp add: ensure_unique_slug_loop.simps [of ns b c s])
  qed
qed

lemma existing_records_cases:
  assumes "wf_db d"
  obtains "existing_records post integration d = []"
  | r where "existing_records post integration d = [r]"
proof -
  from assms have "distinct (map (\<lambda>r. (vk_post_id r, vk_integration_id r)) (imported_tbl d))"
    by (simp add: wf_db_def)
  then have "length (filter (\<lambda>r. (vk_post_id r, vk_integration_id r) = (post_id post, vi_id integration)) (imported_tbl d)) \<le> 1"
    by (rule filter_key_distinct)
  then have "length (existing_records post integration d) \<le> 1"
    by (simp add: existing_records_def)
  then show thesis
    using that by (cases "existing_records post integration d") auto
qed

lemma create_article_raises:
  "\<not> valid_timestamp (post_date post) \<Longrightarrow>
     create_article E post t integration d = (Inl (Raised Timestamp_error), d)"
  by (simp add: create_article_def Let_def split: prod.splits)

lemma create_article_result:
  assumes "wf_db d" and "valid_timestamp (post_date post)"
  shows "\<exists>a. create_article E post txt integration d =
           (Inr (Some a), with_article a (ledger_row d post integration a) d) \<and>
         n_id a = news_seq d \<and> slug a \<notin> slug ` set (news_tbl d) \<and>
         title a = make_title_from_text E txt 150 \<and>
         category_id a =
           determine_category E txt (hashtag_category_map integration)
             (default_category_id integration) d \<and>
         is_published a = auto_publish integration"
proof -
  let ?t = "make_title_from_text E txt 150"
  let ?s1 = "if generate_slug E ?t = [] then lit ''vk-post-'' @ str_int (post_id post)
             else generate_slug E ?t"
  from assms(1) have "distinct (map slug (news_tbl d))"
    by (simp add: wf_db_def)
  then obtain s where s: "ensure_unique_slug ?s1 d = Inr s" "s \<notin> slug ` set (news_tbl d)"
    unfolding ensure_unique_slug_def using slug_loop_returns by blast
  with assms(2) show ?thesis
    by (simp add: create_article_def Let_def with_article_def ledger_row_def
        split: prod.splits)
qed

lemma wf_with_article:
  assumes "wf_db d" and "existing_records post integration d = []"
    and "n_id a = news_seq d" and "slug a \<notin> slug ` set (news_tbl d)"
  shows "wf_db (with_article a (ledger_row d post integration a) d)"
proof -
  from assms(2) have "(post_id post, vi_id integration) \<notin>
      (\<lambda>r. (vk_post_id r, vk_integration_id r)) ` set (imported_tbl d)"
    by (auto simp: existing_records_def filter_empty_conv)
  with assms(1,3,4) show ?thesis
    by (auto simp: wf_db_def with_article_def ledger_row_def list_all_iff)
qed

lemma wf_delete_imported: "wf_db d \<Longrightarrow> wf_db (delete_imported r d)"
  by (auto simp: wf_db_def delete_imported_def list_all_iff distinct_map_filter)

lemma existing_after_delete:
  assumes "existing_records post integration d = [r]"
  shows "existing_records post integration (delete_imported r d) = []"
proof -
  have "r \<in> set (existing_records post integration d)" using assms by simp
  have "\<forall>x\<in>set (existing_records post integration d). x = r" using assms by simp
  then show ?thesis
    by (auto simp: existing_records_def delete_imported_def filter_empty_conv)
qed


lemma find_append_None: "find P xs = None \<Longrightarrow> find P (xs @ ys) = find P ys"
  by (induction xs) (auto split: if_splits)


lemma get_news_new:
  assumes "wf_db d" and "n_id a = news_seq d"
  shows "get_news (with_article a r d) (n_id a) = Some a"
proof -
  from assms have "\<forall>n\<in>set (news_tbl d). n_id n \<noteq> n_id a"
    by (auto simp: wf_db_def list_all_iff)
  then have "find (\<lambda>n. n_id n = n_id a) (news_tbl d) = None"
    by (simp add: find_None_iff)
  then show ?thesis
    by (simp add: get_news_def with_article_def find_append_None)
qed

lemma existing_with_article:
  assumes "existing_records post integration d = []"
  shows "existing_records post integration
           (with_article a (ledger_row d0 post integration a) d) =
         [ledger_row d0 post integration a]"
  using assms by (simp add: existing_records_def with_article_def ledger_row_def)


lemma import_fresh:
  assumes "t \<noteq> []" and "post_text post = Some t"
    and "existing_records post integration d = []"
  shows "import_vk_post E post integration d = create_article E post t integration d"
  using assms by (simp add: import_vk_post_def scalar_one_or_none_def)

lemma import_linked:
  assumes "t \<noteq> []" and "post_text post = Some t"
    and "existing_records post integration d = [r]" and "linked_news_exists d r"
  shows "import_vk_post E post integration d = (Inr None, d)"
  using assms by (simp add: import_vk_post_def scalar_one_or_none_def)

lemma import_stale:
  assumes "t \<noteq> []" and "post_text post = Some t"
    and "existing_records post integration d = [r]" and "\<not> linked_news_exists d r"
  shows "import_vk_post E post integration d =
           create_article E post t integration (delete_imported r d)"
  using assms by (simp add: import_vk_post_def scalar_one_or_none_def)

lemma import_no_text:
  assumes "post_text post = None \<or> post_text post = Some []"
  shows "import_vk_post E post integration d = (Inr None, d)"
  using assms by (auto simp: import_vk_post_def)

lemma import_outcome:
  assumes wf: "wf_db d" and nonempty: "post_text post = Some t" "t \<noteq> []"
    and valid: "valid_timestamp (post_date post)"
  shows "\<exists>res d'. import_vk_post E post integration d = (Inr res, d') \<and> wf_db d' \<and>
           imported_once post integration d' \<and>
           integrations_tbl d' = integrations_tbl d \<and>
           integrations_seq d' = integrations_seq d \<and>
           categories d' = categories d \<and>
           length (news_tbl d') \<le> Suc (length (news_tbl d))"
proof -
  have made: "\<exists>res d'. create_article E post t integration d0 = (Inr res, d') \<and> wf_db d' \<and>
           imported_once post integration d' \<and>
           integrations_tbl d' = integrations_tbl d0 \<and>
           integrations_seq d' = integrations_seq d0 \<and>
           categories d' = categories d0 \<and>
           length (news_tbl d') \<le> Suc (length (news_tbl d0))"
    if wf0: "wf_db d0" and none: "existing_records post integration d0 = []" for d0
  proof -
    from create_article_result [OF wf0 valid, of E t integration]
    obtain a where a: "create_article E post t integration d0 =
        (Inr (Some a), with_article a (ledger_row d0 post integration a) d0)"
      "n_id a = news_seq d0" "slug a \<notin> slug ` set (news_tbl d0)"
      by blast
    let ?d' = "with_article a (ledger_row d0 post integration a) d0"
    have "wf_db ?d'" using wf0 none a(2,3) by (rule wf_with_article)
    moreover have "imported_once post integration ?d'"
    proof -
      have "get_news ?d' (n_id a) = Some a" using wf0 a(2) by (rule get_news_new)
      moreover have "n_id a \<noteq> 0" using wf0 a(2) by (simp add: wf_db_def)
      ultimately have "linked_news_exists ?d' (ledger_row d0 post integration a)"
        by (simp add: linked_news_exists_def ledger_row_def)
      then show ?thesis
        by (simp add: imported_once_def existing_with_article [OF none])
    qed
    ultimately show ?thesis
      using a(1) by (simp add: with_article_def)
  qed
  from wf show ?thesis
  proof (cases rule: existing_records_cases [of d post integration])
    case 1
    with made [OF wf] import_fresh [OF nonempty(2,1), of integration d E] show ?thesis
      by simp
  next
    case (2 r)
    show ?thesis
    proof (cases "linked_news_exists d r")
      case True
      with 2 wf import_linked [OF nonempty(2,1) 2, of E] show ?thesis
        by (simp add: imported_once_def)
    next
      case False
      have "wf_db (delete_imported r d)" using wf by (rule wf_delete_imported)
      from made [OF this existing_after_delete [OF 2]]
        import_stale [OF nonempty(2,1) 2 False, of E]
      show ?thesis by (simp add: delete_imported_def)
    qed
  qed
qed

lemma member_existing:
  "r \<in> set (existing_records post integration d) \<longleftrightarrow>
     r \<in> set (imported_tbl d) \<and> vk_post_id r = post_id post \<and>
     vk_integration_id r = vi_id integration"
  by (auto simp: existing_records_def)

lemma existing_single:
  assumes "wf_db d" and "r \<in> set (imported_tbl d)" and "vk_post_id r = post_id post"
    and "vk_integration_id r = vi_id integration"
  shows "existing_records post integration d = [r]"
proof -
  from assms(2-4) have "r \<in> set (existing_records post integration d)"
    by (simp add: member_existing)
  with assms(1) show ?thesis
    by (cases rule: existing_records_cases [of d post integration]) auto
qed

lemma delete_imported_remove:
  assumes "wf_db d" and "r \<in> set (imported_tbl d)"
  shows "imported_tbl (delete_imported r d) = filter (\<lambda>x. x \<noteq> r) (imported_tbl d)"
proof -
  from assms(1) have "inj_on ip_id (set (imported_tbl d))"
    by (simp add: wf_db_def distinct_map)
  with assms(2) have "\<forall>x\<in>set (imported_tbl d). (ip_id x \<noteq> ip_id r) = (x \<noteq> r)"
    by (auto dest: inj_onD)
  then show ?thesis
    by (simp add: delete_imported_def cong: filter_cong)
qed


lemma wf_imported_db: "wf_db imported_db"
  by (simp add: wf_db_def imported_db_def empty_db_def article_def ledger_def integ_def)

lemma wf_stale_db: "wf_db stale_db"
  by (simp add: wf_db_def stale_db_def empty_db_def article_def ledger_def integ_def)

text \<open>Whether it returns or raises, an import keeps the invariant and the integrations.\<close>

lemma import_frame:
  assumes wf: "wf_db d"
  shows "wf_db (snd (import_vk_post E post integration d)) \<and>
     integrations_tbl (snd (import_vk_post E post integration d)) = integrations_tbl d \<and>
     integrations_seq (snd (import_vk_post E post integration d)) = integrations_seq d \<and>
     categories (snd (import_vk_post E post integration d)) = categories d"
proof (cases "post_text post = None \<or> post_text post = Some []")
  case True
  with wf show ?thesis by (simp add: import_no_text)
next
  case False
  then obtain t where nonempty: "post_text post = Some t" "t \<noteq> []" by auto
  show ?thesis
  proof (cases "valid_timestamp (post_date post)")
    case True
    from import_outcome [OF wf nonempty True, of E integration] show ?thesis by auto
  next
    case False
    from wf show ?thesis
    proof (cases rule: existing_records_cases [of d post integration])
      case 1
      with wf False import_fresh [OF nonempty(2,1), of integration d E] show ?thesis
        by (simp add: create_article_raises)
    next
      case (2 r)
      show ?thesis
      proof (cases "linked_news_exists d r")
        case True
        with 2 wf import_linked [OF nonempty(2,1) 2, of E] show ?thesis by simp
      next
        case stale: False
        with False import_stale [OF nonempty(2,1) 2, of E] wf_delete_imported [OF wf, of r]
        show ?thesis
          by (simp add: create_article_raises delete_imported_def)
      qed
    qed
  qed
qed




lemma import_stale_raises:
  assumes "wf_db d" and "post_text post = Some t" and "t \<noteq> []"
    and "r \<in> set (imported_tbl d)" and "vk_post_id r = post_id post"
    and "vk_integration_id r = vi_id integration" and "\<not> linked_news_exists d r"
    and "\<not> valid_timestamp (post_date post)"
  shows "import_vk_post E post integration d =
     (Inl (Raised Timestamp_error), delete_imported r d)"
proof -
  have "existing_records post integration d = [r]"
    using assms(1,4-6) by (rule existing_single)
  from import_stale [OF assms(3,2) this assms(7), of E] assms(8) show ?thesis
    by (simp add: create_article_raises)
qed

text \<open>
  Claim C2 (stale reimport), for a post whose date \<^verbatim>\<open>datetime\<close> can hold. Let the post
  have a non-empty text and such a date, and the session satisfy the invariant. If the
  ledger holds a row \<open>r\<close> for the post under the integration whose article reference is
  null or names no existing article, \<^verbatim>\<open>import_vk_post\<close> removes \<open>r\<close>, appends exactly one
  article and exactly one ledger row, which links that article, and the new row is the
  only row of the pair.
\<close>

theorem import_vk_post_stale:
  assumes "wf_db d" and "post_text post = Some t" and "t \<noteq> []"
    and "valid_timestamp (post_date post)"
    and "r \<in> set (imported_tbl d)" and "vk_post_id r = post_id post"
    and "vk_integration_id r = vi_id integration"
    and "news_id r = None \<or> (\<exists>k. news_id r = Some k \<and> get_news d k = None)"
  shows
    "\<exists>a row d'. import_vk_post E post integration d = (Inr (Some a), d') \<and>
       news_tbl d' = news_tbl d @ [a] \<and>
       imported_tbl d' = filter (\<lambda>x. x \<noteq> r) (imported_tbl d) @ [row] \<and>
       existing_records post integration d' = [row] \<and>
       row \<noteq> r \<and> news_id row = Some (n_id a) \<and> get_news d' (n_id a) = Some a \<and>
       wf_db d'"
proof -
  have single: "existing_records post integration d = [r]"
    using assms(1,5-7) by (rule existing_single)
  from assms(8) have stale: "\<not> linked_news_exists d r"
    by (auto simp: linked_news_exists_def)
  let ?d0 = "delete_imported r d"
  have wf0: "wf_db ?d0" using assms(1) by (rule wf_delete_imported)
  have none: "existing_records post integration ?d0 = []"
    using single by (rule existing_after_delete)
  from create_article_result [OF wf0 assms(4), of E t integration]
  obtain a where a: "create_article E post t integration ?d0 =
      (Inr (Some a), with_article a (ledger_row ?d0 post integration a) ?d0)"
    "n_id a = news_seq ?d0" "slug a \<notin> slug ` set (news_tbl ?d0)"
    by blast
  let ?row = "ledger_row ?d0 post integration a"
  let ?d' = "with_article a ?row ?d0"
  have "import_vk_post E post integration d = (Inr (Some a), ?d')"
    using import_stale [OF assms(3,2) single stale, of E] a(1) by simp
  moreover have "news_tbl ?d' = news_tbl d @ [a]"
    by (simp add: with_article_def delete_imported_def)
  moreover have "imported_tbl ?d' = filter (\<lambda>x. x \<noteq> r) (imported_tbl d) @ [?row]"
    using delete_imported_remove [OF assms(1,5)] by (simp add: with_article_def)
  moreover have "existing_records post integration ?d' = [?row]"
    using none by (rule existing_with_article)
  moreover have "?row \<noteq> r"
  proof
    assume "?row = r"
    then have "ip_id r = imported_seq d"
      by (auto simp: ledger_row_def delete_imported_def)
    with assms(1,5) show False
      by (auto simp: wf_db_def list_all_iff)
  qed
  moreover have "news_id ?row = Some (n_id a)"
    by (simp add: ledger_row_def)
  moreover have "get_news ?d' (n_id a) = Some a"
    using wf0 a(2) by (rule get_news_new)
  moreover have "wf_db ?d'"
    using wf0 none a(2,3) by (rule wf_with_article)
  ultimately show ?thesis by blast
qed

theorem import_vk_post_stale_witness:
  "\<exists>a row d'. import_vk_post test_env (text_post 7 (lit ''Hello'')) (integ 1 (lit ''auto''))
       stale_db = (Inr (Some a), d') \<and>
     news_tbl d' = [article 1 (lit ''hello'') True None, a] \<and>
     imported_tbl d' = [ledger 2 8 1 (Some 1), row] \<and>
     news_id row = Some (n_id a) \<and> get_news d' (n_id a) = Some a"
proof -
  let ?p = "text_post 7 (lit ''Hello'')" and ?i = "integ 1 (lit ''auto'')"
  let ?r = "ledger 1 7 1 (Some 2)"
  have p: "post_text ?p = Some (lit ''Hello'')" "lit ''Hello'' \<noteq> []"
    "valid_timestamp (post_date ?p)"
    by (simp_all add: text_post_def lit_def valid_timestamp_def)
  have r: "?r \<in> set (imported_tbl stale_db)" "vk_post_id ?r = post_id ?p"
    "vk_integration_id ?r = vi_id ?i"
    "news_id ?r = None \<or> (\<exists>k. news_id ?r = Some k \<and> get_news stale_db k = None)"
    by (simp_all add: stale_db_def empty_db_def ledger_def text_post_def integ_def get_news_def
        article_def)
  have tbls: "news_tbl stale_db = [article 1 (lit ''hello'') True None]"
    "filter (\<lambda>x. x \<noteq> ?r) (imported_tbl stale_db) = [ledger 2 8 1 (Some 1)]"
    by (simp_all add: stale_db_def empty_db_def ledger_def)
  from import_vk_post_stale [OF wf_stale_db p r, of test_env] tbls
  show ?thesis by (simp del: ex_simps) blast
qed

text \<open>
  A stale row and a post with a text whose date is the second \<open>10\<^sup>1\<^sup>2\<close> of the epoch, in
  the year 33658: line 257 raises after the stale row was deleted, and no article and no
  ledger row is made.
\<close>

theorem import_vk_post_stale_far_date:
  "wf_db stale_db \<and>
   post_text (far_post 7 (lit ''Hello'')) = Some (lit ''Hello'') \<and>
   ledger 1 7 1 (Some 2) \<in> set (imported_tbl stale_db) \<and>
   vk_post_id (ledger 1 7 1 (Some 2)) = post_id (far_post 7 (lit ''Hello'')) \<and>
   vk_integration_id (ledger 1 7 1 (Some 2)) = vi_id (integ 1 (lit ''auto'')) \<and>
   get_news stale_db 2 = None \<and>
   import_vk_post test_env (far_post 7 (lit ''Hello'')) (integ 1 (lit ''auto'')) stale_db =
     (Inl (Raised Timestamp_error), stale_db\<lparr>imported_tbl := [ledger 2 8 1 (Some 1)]\<rparr>)"
proof (intro conjI)
  show "wf_db stale_db" by (rule wf_stale_db)
  show "import_vk_post test_env (far_post 7 (lit ''Hello'')) (integ 1 (lit ''auto'')) stale_db =
     (Inl (Raised Timestamp_error), stale_db\<lparr>imported_tbl := [ledger 2 8 1 (Some 1)]\<rparr>)"
    by code_simp
  show "get_news stale_db 2 = None"
    by (simp add: get_news_def stale_db_def empty_db_def article_def)
qed (simp_all add: far_post_def text_post_def stale_db_def ledger_def integ_def empty_db_def)

subsection \<open>Scheduled publisher\<close>

lemma publisher_tick_row:
  assumes "i < length (news_tbl d)"
  shows "news_tbl (publisher_tick now d) ! i =
     (if \<not> is_published (news_tbl d ! i) \<and>
         (\<exists>t. scheduled_publish_at (news_tbl d ! i) = Some t \<and> t \<le> now)
      then (news_tbl d ! i)\<lparr>is_published := True, publish_date := Some now\<rparr>
      else news_tbl d ! i)"
proof -
  have "due now n \<longleftrightarrow> \<not> is_published n \<and> (\<exists>t. scheduled_publish_at n = Some t \<and> t \<le> now)" for n
    by (simp add: due_def split: option.splits)
  with assms show ?thesis
    by (auto simp: publisher_tick_def publish_def)
qed

lemma length_publisher_tick: "length (news_tbl (publisher_tick now d)) = length (news_tbl d)"
  by (simp add: publisher_tick_def)

lemma publisher_loop_keeps:
  "length (news_tbl (publisher_loop nows d)) = length (news_tbl d) \<and>
   (\<forall>i < length (news_tbl d). is_published (news_tbl d ! i) \<longrightarrow>
      news_tbl (publisher_loop nows d) ! i = news_tbl d ! i)"
proof (induction nows arbitrary: d)
  case Nil
  show ?case by simp
next
  case (Cons now nows)
  have "news_tbl (publisher_tick now d) ! i = news_tbl d ! i"
    if "i < length (news_tbl d)" "is_published (news_tbl d ! i)" for i
    using that by (simp add: publisher_tick_row)
  with Cons.IH [of "publisher_tick now d"] show ?case
    by (simp add: length_publisher_tick)
qed

text \<open>
  Claim C9 (scheduled-publish transition). A tick at \<open>now\<close> keeps the number and order of
  the articles; an article whose publish flag is unset and whose scheduled time is not
  null and at or before \<open>now\<close> becomes published with publish timestamp \<open>now\<close> and is
  otherwise unchanged; every other article is unchanged. The ledger and the integrations
  are untouched. The transition is monotonic: an article that is published is still
  published after any number of ticks of the loop.
\<close>

theorem publisher_tick_transition:
  "length (news_tbl (publisher_tick now d)) = length (news_tbl d) \<and>
   (\<forall>i < length (news_tbl d).
      (if \<not> is_published (news_tbl d ! i) \<and>
          (\<exists>t. scheduled_publish_at (news_tbl d ! i) = Some t \<and> t \<le> now)
       then news_tbl (publisher_tick now d) ! i =
              (news_tbl d ! i)\<lparr>is_published := True, publish_date := Some now\<rparr>
       else news_tbl (publisher_tick now d) ! i = news_tbl d ! i) \<and>
      (is_published (news_tbl d ! i) \<longrightarrow>
         is_published (news_tbl (publisher_loop nows d) ! i))) \<and>
   length (news_tbl (publisher_loop nows d)) = length (news_tbl d) \<and>
   imported_tbl (publisher_tick now d) = imported_tbl d \<and>
   integrations_tbl (publisher_tick now d) = integrations_tbl d"
proof (intro conjI allI impI)
  show "length (news_tbl (publisher_tick now d)) = length (news_tbl d)"
    by (rule length_publisher_tick)
  show "length (news_tbl (publisher_loop nows d)) = length (news_tbl d)"
    using publisher_loop_keeps [of nows d] by simp
  show "imported_tbl (publisher_tick now d) = imported_tbl d"
    and "integrations_tbl (publisher_tick now d) = integrations_tbl d"
    by (simp_all add: publisher_tick_def)
next
  fix i assume i: "i < length (news_tbl d)"
  then show "if \<not> is_published (news_tbl d ! i) \<and>
          (\<exists>t. scheduled_publish_at (news_tbl d ! i) = Some t \<and> t \<le> now)
       then news_tbl (publisher_tick now d) ! i =
              (news_tbl d ! i)\<lparr>is_published := True, publish_date := Some now\<rparr>
       else news_tbl (publisher_tick now d) ! i = news_tbl d ! i"
    by (auto simp: publisher_tick_row)
  assume "is_published (news_tbl d ! i)"
  with i publisher_loop_keeps [of nows d]
  show "is_published (news_tbl (publisher_loop nows d) ! i)"
    by simp
qed

theorem publisher_tick_transition_witness:
  "news_tbl (publisher_tick 100 scheduled_db) ! 0 =
     (article 1 (lit ''a'') False (Some 50))\<lparr>is_published := True, publish_date := Some 100\<rparr> \<and>
   news_tbl (publisher_tick 100 scheduled_db) ! 1 = article 2 (lit ''b'') False (Some 150) \<and>
   news_tbl (publisher_tick 100 scheduled_db) ! 2 = article 3 (lit ''c'') True (Some 10) \<and>
   news_tbl (publisher_tick 100 scheduled_db) ! 3 = article 4 (lit ''d'') False None \<and>
   is_published (news_tbl (publisher_loop [100, 130, 160] scheduled_db) ! 2) \<and>
   length (news_tbl (publisher_tick 100 scheduled_db)) = 4"
proof -
  note T = publisher_tick_transition [of 100 scheduled_db "[100, 130, 160]"]
  have rows: "news_tbl scheduled_db =
      [article 1 (lit ''a'') False (Some 50), article 2 (lit ''b'') False (Some 150),
       article 3 (lit ''c'') True (Some 10), article 4 (lit ''d'') False None]"
    by (simp add: scheduled_db_def)
  have r0: "0 < length (news_tbl scheduled_db)" and r1: "1 < length (news_tbl scheduled_db)"
    and r2: "2 < length (news_tbl scheduled_db)" and r3: "3 < length (news_tbl scheduled_db)"
    by (simp_all add: rows)
  have pub: "is_published (news_tbl scheduled_db ! 2)"
    by (simp add: rows article_def)
  note each = T [THEN conjunct2, THEN conjunct1, rule_format, THEN conjunct1]
  note stays = T [THEN conjunct2, THEN conjunct1, rule_format, THEN conjunct2, rule_format,
      OF r2 pub]
  show ?thesis
    using each [OF r0] each [OF r1] each [OF r2] each [OF r3] T [THEN conjunct1] stays
    by (simp add: rows article_def)
qed

subsection \<open>The loop over a batch\<close>

lemma import_posts_skip:
  assumes "truthy_int (marked_as_ads post) \<or> post_text post = None \<or> post_text post = Some []"
  shows "import_posts E integration (post # posts) c d = import_posts E integration posts c d"
  using assms by (auto simp: import_no_text)

lemma import_posts_filter:
  "import_posts E integration posts c d =
     import_posts E integration
       (filter (\<lambda>p. \<not> (truthy_int (marked_as_ads p) \<or> post_text p = None \<or>
          post_text p = Some [])) posts) c d"
proof (induction posts arbitrary: c d)
  case Nil
  show ?case by simp
next
  case (Cons post posts)
  show ?case
  proof (cases "truthy_int (marked_as_ads post) \<or> post_text post = None \<or>
      post_text post = Some []")
    case True
    then show ?thesis
      using Cons.IH [of c d] by (simp only: import_posts_skip filter.simps if_True not_True_eq_False if_False)
  next
    case False
    then show ?thesis
      using Cons.IH by (simp split: prod.splits sum.splits)
  qed
qed

text \<open>\<^verbatim>\<open>import_vk_post\<close> itself never reads the advertisement mark of a post.\<close>

lemma create_article_ignores_ad_mark:
  "create_article E (post\<lparr>marked_as_ads := m\<rparr>) t integration d =
     create_article E post t integration d"
  by (simp add: create_article_def Let_def split: prod.splits sum.splits)

lemma import_ignores_ad_mark:
  "import_vk_post E (post\<lparr>marked_as_ads := m\<rparr>) integration d =
     import_vk_post E post integration d"
  by (simp add: import_vk_post_def existing_records_def create_article_ignores_ad_mark
      split: sum.splits option.splits)

text \<open>
  Claim C8 (advertisements and posts without text). \<^verbatim>\<open>import_vk_post\<close> returns at once,
  without a query, on a post that has no text or an empty one. The loop of both triggers
  passes over a post marked as an advertisement before it calls \<^verbatim>\<open>import_vk_post\<close>, so
  a round of the loop on a post that is marked or has no text changes nothing, and a batch
  of such posts leaves the session as it was: no article and no ledger row is made.
\<close>

theorem ad_and_empty_text_skipped:
  "(post_text post = None \<or> post_text post = Some [] \<longrightarrow>
      import_vk_post E post integration d = (Inr None, d)) \<and>
   ((\<exists>k. marked_as_ads post = Some k \<and> k \<noteq> 0) \<or> post_text post = None \<or>
      post_text post = Some [] \<longrightarrow>
      import_posts E integration (post # posts) c d = import_posts E integration posts c d) \<and>
   ((\<forall>p\<in>set posts. (\<exists>k. marked_as_ads p = Some k \<and> k \<noteq> 0) \<or> post_text p = None \<or>
        post_text p = Some []) \<longrightarrow>
      import_posts E integration posts c d = (Inr c, d))"
proof -
  have ads: "truthy_int (marked_as_ads p) \<longleftrightarrow> (\<exists>k. marked_as_ads p = Some k \<and> k \<noteq> 0)" for p
    by (simp add: truthy_int_def split: option.splits)
  have "import_posts E integration posts c d = (Inr c, d)"
    if "\<forall>p\<in>set posts. (\<exists>k. marked_as_ads p = Some k \<and> k \<noteq> 0) \<or> post_text p = None \<or>
        post_text p = Some []"
  proof -
    from that have "filter (\<lambda>p. \<not> (truthy_int (marked_as_ads p) \<or> post_text p = None \<or>
          post_text p = Some [])) posts = []"
      by (simp add: filter_empty_conv ads)
    then show ?thesis
      using import_posts_filter [of E integration posts c d] by simp
  qed
  then show ?thesis
    using import_posts_skip [of post E integration posts c d]
    by (simp add: import_no_text ads)
qed

theorem ad_and_empty_text_skipped_witness:
  "import_vk_post test_env (silent_post 5) (integ 1 (lit ''auto'')) empty_db = (Inr None, empty_db) \<and>
   import_posts test_env (integ 1 (lit ''auto''))
     [ad_post 4 (lit ''Buy''), silent_post 5, text_post 6 []] 0 empty_db = (Inr 0, empty_db)"
proof -
  let ?i = "integ 1 (lit ''auto'')"
  let ?posts = "[ad_post 4 (lit ''Buy''), silent_post 5, text_post 6 []]"
  note T = ad_and_empty_text_skipped [of "silent_post 5" test_env ?i empty_db ?posts 0]
  have a: "post_text (silent_post 5) = None \<or> post_text (silent_post 5) = Some []"
    by (simp add: silent_post_def)
  have b: "\<forall>p\<in>set ?posts. (\<exists>k. marked_as_ads p = Some k \<and> k \<noteq> 0) \<or> post_text p = None \<or>
        post_text p = Some []"
    by (simp add: ad_post_def silent_post_def text_post_def)
  from T a b show ?thesis by blast
qed

subsection \<open>Title derivation\<close>

lemma set_py_strip: "set (py_strip E s) \<subseteq> set s"
  by (auto simp: py_strip_def dest!: set_dropWhileD)

lemma first_split_line_no_newline: "10 \<notin> set (first_split_line s)"
  unfolding first_split_line_def by (auto dest: set_takeWhileD)

text \<open>Where \<^verbatim>\<open>rsplit(' ', 1)[0]\<close> cuts: at the last space, when there is one.\<close>

lemma rsplit_space_head_cut:
  assumes "32 \<in> set s"
  shows "\<exists>k < length s. rsplit_space_head s = take k s \<and> s ! k = 32 \<and>
           32 \<notin> set (drop (Suc k) s)"
proof -
  from assms have "32 \<in> set (rev s)" by simp
  from split_list_first [OF this]
  obtain ys zs where split: "rev s = ys @ 32 # zs" and ys: "32 \<notin> set ys"
    by blast
  from ys have "\<forall>c\<in>set ys. c \<noteq> 32" by blast
  with split have dw: "dropWhile (\<lambda>c. c \<noteq> 32) (rev s) = 32 # zs"
    by (simp add: dropWhile_append3)
  from split have s: "s = rev zs @ 32 # rev ys"
    by (metis rev_append rev.simps(2) rev_rev_ident append_assoc append_Cons append_Nil)
  let ?k = "length zs"
  have "?k < length s" using s by simp
  moreover have "rsplit_space_head s = take ?k s"
    using assms dw s by (simp add: rsplit_space_head_def)
  moreover have "s ! ?k = 32" using s by (simp add: nth_append)
  moreover have "32 \<notin> set (drop (Suc ?k) s)" using s ys by simp
  ultimately show ?thesis by blast
qed

lemma length_fallback_title: "length fallback_title = 14"
  by (simp add: fallback_title_def)

lemma match_mention_None: "s = [] \<or> hd s \<noteq> 91 \<Longrightarrow> match_mention E kind s = None"
  by (cases s) (auto simp: match_mention_def Let_def)

lemma sub_mention_plain: "91 \<notin> set s \<Longrightarrow> sub_mention E kind s = s"
  by (induction s) (simp_all add: match_mention_None)

lemma remove_hashtags_plain: "35 \<notin> set s \<Longrightarrow> remove_hashtags E s = s"
  by (induction s) auto

lemma py_strip_plain:
  assumes "s \<noteq> []" and "\<not> is_space E (hd s)" and "\<not> is_space E (last s)"
  shows "py_strip E s = s"
proof -
  from assms(1,2) have "dropWhile (is_space E) s = s"
    by (cases s) auto
  moreover from assms(1,3) have "dropWhile (is_space E) (rev s) = rev s"
    by (cases "rev s") (auto simp: last_rev [symmetric] simp del: last_rev)
  ultimately show ?thesis by (simp add: py_strip_def)
qed

lemma first_split_line_plain: "10 \<notin> set s \<Longrightarrow> first_split_line s = s"
  by (simp add: first_split_line_def takeWhile_eq_all_conv) blast

lemma title_line_plain:
  assumes "s \<noteq> []" and "\<not> is_space E (hd s)" and "\<not> is_space E (last s)"
    and "91 \<notin> set s" and "35 \<notin> set s" and "10 \<notin> set s"
  shows "title_line E s = s"
  using assms
  by (simp add: title_line_def clean_vk_text_def sub_mention_plain remove_hashtags_plain
      py_strip_plain first_split_line_plain)

lemma long_title_line: "title_line E long_text = long_text"
  by (rule title_line_plain) (simp_all add: long_text_def is_space_def hd_append last_append)

lemma bob_title_line:
  "title_line test_env (lit ''  [id5|Bob] says hi #Tag  \<newline>second'') = lit ''Bob says hi''"
  by code_simp

lemma tags_title_line: "title_line test_env (lit ''#only #tags'') = []"
  by code_simp

text \<open>
  Claim C6 (title derivation). With the maximum of 150 characters that \<^verbatim>\<open>import_vk_post\<close>
  uses: the title is the first line of the cleaned text without hashtags when that line
  is not empty and has at most 150 characters; it is the fallback label when the line is
  empty; and when the line is longer, the title is a prefix of at most 150 characters of
  the line followed by three dots, the prefix ending just before the last space among the
  first 150 characters (all 150 characters when there is no space among them). The title
  is never empty, has at most 153 characters and holds no line feed.
\<close>

theorem make_title_from_text_spec:
  "(title_line E t = [] \<longrightarrow> make_title_from_text E t 150 = fallback_title) \<and>
   (title_line E t \<noteq> [] \<and> length (title_line E t) \<le> 150 \<longrightarrow>
      make_title_from_text E t 150 = title_line E t) \<and>
   (150 < length (title_line E t) \<longrightarrow>
      (\<exists>k \<le> 150. make_title_from_text E t 150 = take k (title_line E t) @ lit ''...'' \<and>
         (if 32 \<in> set (take 150 (title_line E t))
          then k < 150 \<and> title_line E t ! k = 32 \<and>
               32 \<notin> set (drop (Suc k) (take 150 (title_line E t)))
          else k = 150))) \<and>
   make_title_from_text E t 150 \<noteq> [] \<and>
   length (make_title_from_text E t 150) \<le> 153 \<and>
   10 \<notin> set (make_title_from_text E t 150)"
proof -
  let ?fl = "title_line E t"
  let ?title = "make_title_from_text E t 150"
  have no_nl: "10 \<notin> set ?fl"
    unfolding title_line_def using set_py_strip first_split_line_no_newline by blast
  have short: "?title = (if ?fl = [] then fallback_title else ?fl)" if "length ?fl \<le> 150"
    using that by (simp add: make_title_from_text_def title_line_def Let_def)
  have long: "?title = rsplit_space_head (take 150 ?fl) @ lit ''...''" if "150 < length ?fl"
    using that by (simp add: make_title_from_text_def title_line_def Let_def lit_def)
  have cut: "\<exists>k \<le> 150. ?title = take k ?fl @ lit ''...'' \<and>
         (if 32 \<in> set (take 150 ?fl)
          then k < 150 \<and> ?fl ! k = 32 \<and> 32 \<notin> set (drop (Suc k) (take 150 ?fl))
          else k = 150)" if big: "150 < length ?fl"
  proof (cases "32 \<in> set (take 150 ?fl)")
    case True
    from rsplit_space_head_cut [OF True]
    obtain k where k: "k < length (take 150 ?fl)"
      "rsplit_space_head (take 150 ?fl) = take k (take 150 ?fl)"
      "take 150 ?fl ! k = 32" "32 \<notin> set (drop (Suc k) (take 150 ?fl))"
      by blast
    from k(1) big have k150: "k < 150" by simp
    with k(2) have "rsplit_space_head (take 150 ?fl) = take k ?fl"
      by (simp add: min_def)
    moreover from k(3) k150 have "?fl ! k = 32" by simp
    ultimately show ?thesis
      using True k(4) k150 long [OF big] by (intro exI [of _ k]) simp
  next
    case False
    then have "rsplit_space_head (take 150 ?fl) = take 150 ?fl"
      by (simp add: rsplit_space_head_def)
    with False long [OF big] show ?thesis
      by (intro exI [of _ 150]) simp
  qed
  have nonempty: "?title \<noteq> []"
  proof (cases "150 < length ?fl")
    case True
    then show ?thesis by (simp add: long lit_def)
  next
    case False
    then show ?thesis by (simp add: short fallback_title_def)
  qed
  have len: "length ?title \<le> 153"
  proof (cases "150 < length ?fl")
    case True
    from cut [OF True] obtain k where "k \<le> 150" "?title = take k ?fl @ lit ''...''"
      by blast
    then show ?thesis by (simp add: lit_def)
  next
    case False
    then show ?thesis by (simp add: short length_fallback_title)
  qed
  have nl: "10 \<notin> set ?title"
  proof (cases "150 < length ?fl")
    case True
    from cut [OF True] obtain k where "?title = take k ?fl @ lit ''...''"
      by blast
    moreover have "10 \<notin> set (take k ?fl)"
      using no_nl by (auto dest: in_set_takeD)
    ultimately show ?thesis by (simp add: lit_def)
  next
    case False
    then show ?thesis using no_nl by (simp add: short fallback_title_def)
  qed
  from short cut nonempty len nl show ?thesis by simp
qed

theorem make_title_from_text_spec_witness:
  "make_title_from_text test_env (lit ''#only #tags'') 150 = fallback_title \<and>
   make_title_from_text test_env (lit ''  [id5|Bob] says hi #Tag  \<newline>second'') 150 =
     lit ''Bob says hi'' \<and>
   (\<exists>k<150. make_title_from_text test_env long_text 150 = take k long_text @ lit ''...'' \<and>
      long_text ! k = 32)"
proof -
  note A = make_title_from_text_spec [of test_env "lit ''#only #tags''"]
  note B = make_title_from_text_spec [of test_env "lit ''  [id5|Bob] says hi #Tag  \<newline>second''"]
  note C = make_title_from_text_spec [of test_env long_text]
  have a: "make_title_from_text test_env (lit ''#only #tags'') 150 = fallback_title"
    using A tags_title_line by blast
  have "title_line test_env (lit ''  [id5|Bob] says hi #Tag  \<newline>second'') \<noteq> [] \<and>
      length (title_line test_env (lit ''  [id5|Bob] says hi #Tag  \<newline>second'')) \<le> 150"
    unfolding bob_title_line by (simp add: lit_def)
  with B have b: "make_title_from_text test_env (lit ''  [id5|Bob] says hi #Tag  \<newline>second'') 150 =
     lit ''Bob says hi''"
    using bob_title_line by metis
  have "32 \<in> set (take 150 (title_line test_env long_text))"
    unfolding long_title_line by (simp add: long_text_def)
  moreover have "150 < length (title_line test_env long_text)"
    unfolding long_title_line by (simp add: long_text_def)
  ultimately have "\<exists>k\<le>150. make_title_from_text test_env long_text 150 =
      take k (title_line test_env long_text) @ lit ''...'' \<and>
      k < 150 \<and> title_line test_env long_text ! k = 32 \<and>
      32 \<notin> set (drop (Suc k) (take 150 (title_line test_env long_text)))"
    using C by (simp only: if_True)
  then have "\<exists>k<150. make_title_from_text test_env long_text 150 = take k long_text @ lit ''...'' \<and>
      long_text ! k = 32"
    unfolding long_title_line by blast
  with a b show ?thesis by blast
qed

subsection \<open>Category resolution\<close>




lemma hashtags_example:
  "extract_hashtags test_env (lit ''x #News, #RESULTS#b # c'') =
     [lit ''News'', lit ''RESULTS'', lit ''b'']"
  by code_simp



subsection \<open>The ingestion tick\<close>

lemma import_posts_frame:
  assumes "wf_db d"
  shows "wf_db (snd (import_posts E integration posts c d)) \<and>
     integrations_tbl (snd (import_posts E integration posts c d)) = integrations_tbl d \<and>
     integrations_seq (snd (import_posts E integration posts c d)) = integrations_seq d \<and>
     categories (snd (import_posts E integration posts c d)) = categories d"
  using assms
proof (induction posts arbitrary: c d)
  case Nil
  then show ?case by simp
next
  case (Cons post posts)
  show ?case
  proof (cases "truthy_int (marked_as_ads post)")
    case True
    with Cons.IH [OF Cons.prems, of c] show ?thesis by simp
  next
    case False
    note frame = import_frame [OF Cons.prems, of E post integration]
    show ?thesis
    proof (cases "import_vk_post E post integration d")
      case (Pair x d1)
      show ?thesis
      proof (cases x)
        case (Inl e)
        with Pair False frame show ?thesis by simp
      next
        case (Inr made)
        from Pair frame have "wf_db d1" by simp
        from Cons.IH [OF this, of "if made \<noteq> None then Suc c else c"] Pair Inr False frame
        show ?thesis by simp
      qed
    qed
  qed
qed

lemma import_posts_outcome:
  assumes "wf_db d" and "\<forall>p\<in>set posts. valid_timestamp (post_date p)"
  shows "\<exists>n d'. import_posts E integration posts c d = (Inr n, d')"
  using assms
proof (induction posts arbitrary: c d)
  case Nil
  then show ?case by simp
next
  case (Cons post posts)
  show ?case
  proof (cases "truthy_int (marked_as_ads post) \<or> post_text post = None \<or>
      post_text post = Some []")
    case True
    then have "import_posts E integration (post # posts) c d =
        import_posts E integration posts c d"
      by (auto simp: import_no_text)
    with Cons.IH [OF Cons.prems(1), of c] Cons.prems(2) show ?thesis by simp
  next
    case False
    then obtain t where t: "post_text post = Some t" "t \<noteq> []" and
      no_ad: "\<not> truthy_int (marked_as_ads post)"
      by auto
    from Cons.prems(2) have valid: "valid_timestamp (post_date post)" by simp
    from import_outcome [OF Cons.prems(1) t valid, of E integration]
    obtain res d1 where first: "import_vk_post E post integration d = (Inr res, d1)"
      and d1: "wf_db d1"
      by blast
    from Cons.IH [OF d1, of "if res \<noteq> None then Suc c else c"] Cons.prems(2) first no_ad
    show ?thesis by auto
  qed
qed

lemma wf_set_last_checked:
  assumes "wf_db d"
  shows "wf_db (set_last_checked k now d)"
proof -
  let ?f = "\<lambda>i. if vi_id i = k then i\<lparr>last_checked_at := Some now\<rparr> else i"
  have ids: "map (vi_id \<circ> ?f) xs = map vi_id xs" for xs
    by (induction xs) auto
  have below: "list_all (\<lambda>i. vi_id i < n) (map ?f xs) = list_all (\<lambda>i. vi_id i < n) xs" for n xs
    by (induction xs) auto
  from assms show ?thesis
    unfolding wf_db_def set_last_checked_def by (simp add: ids below)
qed

lemma fetch_vk_posts_request_of:
  "fetch_vk_posts E (group_id i) (access_token i) (batch_size i) =
     (request_of E i, wall_get E (request_of E i))"
  by (simp add: request_of_def fetch_vk_posts_def Let_def)


text \<open>How a round ends, by the throttle, the answer of the feed and the imports.\<close>

lemma poll_integration_cases:
  "(throttled now i \<longrightarrow> poll_integration E now i d = (Skipped, d, [])) \<and>
   (\<not> throttled now i \<longrightarrow>
      snd (snd (poll_integration E now i d)) = [request_of E i] \<and>
      (wall_get E (request_of E i) = Transport_failure \<longrightarrow>
         poll_integration E now i d = (Rolled_back, d, [request_of E i])) \<and>
      (\<forall>msg. wall_get E (request_of E i) = Api_error msg \<longrightarrow>
         poll_integration E now i d = (Error_body, d, [request_of E i])) \<and>
      (\<forall>posts. wall_get E (request_of E i) = Wall posts \<longrightarrow>
         (\<forall>e. fst (import_posts E i posts 0 d) = Inl e \<longrightarrow>
            poll_integration E now i d = (Rolled_back, d, [request_of E i])) \<and>
         (\<forall>n. fst (import_posts E i posts 0 d) = Inr n \<longrightarrow>
            poll_integration E now i d =
              (Committed, set_last_checked (vi_id i) now (snd (import_posts E i posts 0 d)),
               [request_of E i]))))"
  by (auto simp: poll_integration_def fetch_vk_posts_request_of
      split: vk_reply.splits prod.splits sum.splits)



lemma stamp_ids:
  "map vi_id (map (\<lambda>j. if vi_id j = k then j\<lparr>last_checked_at := Some now\<rparr> else j) xs) =
     map vi_id xs"
  by (induction xs) auto

lemma poll_integration_keeps:
  assumes "wf_db d"
  shows "wf_db (fst (snd (poll_integration E now i d))) \<and>
     (\<forall>j\<in>set (integrations_tbl d). vi_id j \<noteq> vi_id i \<longrightarrow>
        j \<in> set (integrations_tbl (fst (snd (poll_integration E now i d))))) \<and>
     map vi_id (integrations_tbl (fst (snd (poll_integration E now i d)))) =
       map vi_id (integrations_tbl d)"
proof -
  note cases = poll_integration_cases [of now i E d]
  show ?thesis
  proof (cases "throttled now i")
    case True
    with assms cases show ?thesis by simp
  next
    case False
    show ?thesis
    proof (cases "wall_get E (request_of E i)")
      case (Wall posts)
      note frame = import_posts_frame [OF assms, of E i posts 0]
      show ?thesis
      proof (cases "fst (import_posts E i posts 0 d)")
        case (Inl e)
        with False Wall cases assms show ?thesis by simp
      next
        case (Inr n)
        with False Wall cases have "fst (snd (poll_integration E now i d)) =
            set_last_checked (vi_id i) now (snd (import_posts E i posts 0 d))"
          by simp
        with frame wf_set_last_checked [of "snd (import_posts E i posts 0 d)" "vi_id i" now]
        show ?thesis
          by (auto simp: set_last_checked_def stamp_ids)
      qed
    qed (use False assms cases in simp_all)
  qed
qed

lemma poll_all_keeps:
  assumes "wf_db d"
  shows "wf_db (fst (poll_all E clock k is d)) \<and>
     (\<forall>j\<in>set (integrations_tbl d). vi_id j \<notin> vi_id ` set is \<longrightarrow>
        j \<in> set (integrations_tbl (fst (poll_all E clock k is d)))) \<and>
     map vi_id (integrations_tbl (fst (poll_all E clock k is d))) =
       map vi_id (integrations_tbl d)"
  using assms
proof (induction "is" arbitrary: k d)
  case Nil
  then show ?case by simp
next
  case (Cons i "is")
  obtain r d1 reqs where one: "poll_integration E (clock k) i d = (r, d1, reqs)"
    by (cases "poll_integration E (clock k) i d")
  from poll_integration_keeps [OF Cons.prems, of E "clock k" i] one
  have d1: "wf_db d1"
    "\<forall>j\<in>set (integrations_tbl d). vi_id j \<noteq> vi_id i \<longrightarrow> j \<in> set (integrations_tbl d1)"
    "map vi_id (integrations_tbl d1) = map vi_id (integrations_tbl d)"
    by simp_all
  show ?case
  proof (cases "tick_goes_on E r")
    case True
    with one have "fst (poll_all E clock k (i # is) d) = fst (poll_all E clock (Suc k) is d1)"
      by (simp split: prod.splits)
    with Cons.IH [OF d1(1), of "Suc k"] d1(2,3) show ?thesis by auto
  next
    case False
    with one have "fst (poll_all E clock k (i # is) d) = d1" by simp
    with d1 show ?thesis by auto
  qed
qed



lemma wf_checked_db: "wf_db (checked_db t)"
  by (simp add: wf_db_def checked_db_def imported_db_def empty_db_def article_def ledger_def
      integ_def)





subsection \<open>The manual trigger\<close>

lemma wf_manual_db: "wf_db manual_db"
  by (simp add: wf_db_def manual_db_def imported_db_def empty_db_def article_def ledger_def
      integ_def)

text \<open>
  Claim C3 (manual trigger and modes), as the code has it. \<^verbatim>\<open>fetch_now\<close> answers with
  the error 404 when no integration is configured and with the error 400 when the mode of
  the integration is \<^verbatim>\<open>off\<close>, and in both cases sends no request and leaves the session
  as it was. In every other mode, \<^verbatim>\<open>manual\<close> and \<^verbatim>\<open>auto\<close> alike, it sends exactly one
  request for the integration; when posts come back and their imports all return, it
  reports the numbers and sets the checkpoint; when an import raises, it answers with the
  error 500 that carries the exception; and the imports all return when the invariant holds
  and every post has a date \<^verbatim>\<open>datetime\<close> can hold.
\<close>

theorem fetch_now_gating:
  "(integrations_tbl d = [] \<longrightarrow>
      fetch_now E now d =
        (Inl (HTTPException 404 (Msg (lit ''VK integration not configured''))), d, [])) \<and>
   (\<forall>i rest. integrations_tbl d = i # rest \<and> mode i = lit ''off'' \<longrightarrow>
      fetch_now E now d = (Inl (HTTPException 400 (Msg off_detail)), d, [])) \<and>
   (\<forall>i rest. integrations_tbl d = i # rest \<and> mode i \<noteq> lit ''off'' \<longrightarrow>
      snd (snd (fetch_now E now d)) = [request_of E i] \<and>
      (\<forall>posts. wall_get E (request_of E i) = Wall posts \<longrightarrow>
         (\<forall>n. fst (import_posts E i posts 0 d) = Inr n \<longrightarrow>
            fetch_now E now d =
              (Inr (n, length posts),
               set_last_checked (vi_id i) now (snd (import_posts E i posts 0 d)),
               [request_of E i])) \<and>
         (\<forall>x. fst (import_posts E i posts 0 d) = Inl (Raised x) \<longrightarrow>
            fetch_now E now d =
              (Inl (HTTPException 500 (Str x)), snd (import_posts E i posts 0 d),
               [request_of E i])) \<and>
         (wf_db d \<and> (\<forall>p\<in>set posts. valid_timestamp (post_date p)) \<longrightarrow>
            (\<exists>n. fst (import_posts E i posts 0 d) = Inr n))))"
proof (intro conjI allI impI)
  show "fetch_now E now d =
      (Inl (HTTPException 404 (Msg (lit ''VK integration not configured''))), d, [])"
    if "integrations_tbl d = []"
    using that by (simp add: fetch_now_def)
next
  fix i rest
  assume "integrations_tbl d = i # rest \<and> mode i = lit ''off''"
  then show "fetch_now E now d = (Inl (HTTPException 400 (Msg off_detail)), d, [])"
    by (simp add: fetch_now_def)
next
  fix i rest
  assume "integrations_tbl d = i # rest \<and> mode i \<noteq> lit ''off''"
  then show "snd (snd (fetch_now E now d)) = [request_of E i]"
    by (simp add: fetch_now_def fetch_vk_posts_request_of
        split: vk_reply.splits prod.splits sum.splits error.splits)
next
  fix i rest posts n
  assume "integrations_tbl d = i # rest \<and> mode i \<noteq> lit ''off''"
    and "wall_get E (request_of E i) = Wall posts"
    and "fst (import_posts E i posts 0 d) = Inr n"
  then show "fetch_now E now d =
      (Inr (n, length posts),
       set_last_checked (vi_id i) now (snd (import_posts E i posts 0 d)), [request_of E i])"
    by (cases "import_posts E i posts 0 d")
      (simp add: fetch_now_def fetch_vk_posts_request_of)
next
  fix i rest posts x
  assume "integrations_tbl d = i # rest \<and> mode i \<noteq> lit ''off''"
    and "wall_get E (request_of E i) = Wall posts"
    and "fst (import_posts E i posts 0 d) = Inl (Raised x)"
  then show "fetch_now E now d =
      (Inl (HTTPException 500 (Str x)), snd (import_posts E i posts 0 d), [request_of E i])"
    by (cases "import_posts E i posts 0 d")
      (simp add: fetch_now_def fetch_vk_posts_request_of)
next
  fix i rest and posts :: "vk_post list"
  assume "wf_db d \<and> (\<forall>p\<in>set posts. valid_timestamp (post_date p))"
  with import_posts_outcome [of d posts E i 0]
  show "\<exists>n. fst (import_posts E i posts 0 d) = Inr n"
    by auto
qed

theorem fetch_now_gating_witness:
  "fetch_now test_env 5000 empty_db =
     (Inl (HTTPException 404 (Msg (lit ''VK integration not configured''))), empty_db, []) \<and>
   fetch_now test_env 5000 off_db = (Inl (HTTPException 400 (Msg off_detail)), off_db, []) \<and>
   fetch_now test_env 5000 manual_db =
     (Inr (0, 0), set_last_checked 1 5000 manual_db, [request_of test_env (integ 1 (lit ''manual''))]) \<and>
   fetch_now (feed_env (Wall [far_post 9 (lit ''Hello'')])) 5000 manual_db =
     (Inl (HTTPException 500 (Str Timestamp_error)), manual_db,
      [request_of (feed_env (Wall [far_post 9 (lit ''Hello'')])) (integ 1 (lit ''manual''))])"
proof -
  let ?F = "feed_env (Wall [far_post 9 (lit ''Hello'')])"
  have a: "integrations_tbl empty_db = []" by (simp add: empty_db_def)
  have b: "integrations_tbl off_db = integ 1 (lit ''off'') # [] \<and>
      mode (integ 1 (lit ''off'')) = lit ''off''"
    by (simp add: off_db_def integ_def)
  have c: "integrations_tbl manual_db = integ 1 (lit ''manual'') # [] \<and>
      mode (integ 1 (lit ''manual'')) \<noteq> lit ''off''"
    by (simp add: manual_db_def integ_def lit_def)
  have e: "wall_get test_env (request_of test_env (integ 1 (lit ''manual''))) = Wall []"
    by (simp add: test_env_def)
  have f: "wall_get ?F (request_of ?F (integ 1 (lit ''manual''))) =
      Wall [far_post 9 (lit ''Hello'')]"
    by (simp add: feed_env_def)
  have g: "import_posts ?F (integ 1 (lit ''manual'')) [far_post 9 (lit ''Hello'')] 0 manual_db =
      (Inl (Raised Timestamp_error), manual_db)"
    by code_simp
  note A = fetch_now_gating [of empty_db test_env 5000, THEN conjunct1, rule_format, OF a]
  note B = fetch_now_gating [of off_db test_env 5000, THEN conjunct2, THEN conjunct1,
      rule_format, OF b]
  note C = fetch_now_gating [of manual_db test_env 5000, THEN conjunct2, THEN conjunct2,
      rule_format, OF c, THEN conjunct2, rule_format, OF e, THEN conjunct1, rule_format,
      of 0]
  note D = fetch_now_gating [of manual_db ?F 5000, THEN conjunct2, THEN conjunct2,
      rule_format, OF c, THEN conjunct2, rule_format, OF f, THEN conjunct2, THEN conjunct1,
      rule_format, of Timestamp_error]
  from C have "fetch_now test_env 5000 manual_db =
     (Inr (0, 0), set_last_checked 1 5000 manual_db, [request_of test_env (integ 1 (lit ''manual''))])"
    by (simp add: integ_def)
  moreover from D g have "fetch_now ?F 5000 manual_db =
     (Inl (HTTPException 500 (Str Timestamp_error)), manual_db,
      [request_of ?F (integ 1 (lit ''manual''))])"
    by simp
  ultimately show ?thesis using A B by simp
qed

text \<open>
  The manual trigger on an integration in mode \<^verbatim>\<open>auto\<close>: a request is sent and the post
  of the feed is imported, so the trigger is not confined to the mode \<^verbatim>\<open>manual\<close>.
\<close>

theorem manual_trigger_in_auto_mode:
  "mode (hd (integrations_tbl imported_db)) = lit ''auto'' \<and>
   fst (fetch_now (feed_env (Wall [text_post 9 (lit ''New'')])) 5000 imported_db) = Inr (1, 1) \<and>
   length (snd (snd (fetch_now (feed_env (Wall [text_post 9 (lit ''New'')])) 5000 imported_db))) = 1 \<and>
   length (news_tbl imported_db) = 1 \<and>
   length (news_tbl (fst (snd (fetch_now (feed_env (Wall [text_post 9 (lit ''New'')])) 5000
     imported_db)))) = 2"
  by code_simp

subsection \<open>Configuration\<close>

lemma create_stores_fetch_count:
  "fetch_count (fst (create_vk_integration data d)) = c_fetch_count data"
  by (simp add: create_vk_integration_def Let_def)

lemma update_clamps_fetch_count:
  "u_fetch_count data = Some v \<Longrightarrow>
     1 \<le> fetch_count (apply_update data i) \<and> fetch_count (apply_update data i) \<le> 100"
  by (simp add: apply_update_def Let_def split: option.splits)

lemma update_vk_integration_fetch_count:
  assumes "update_vk_integration data d = Inr (i, d')" and "u_fetch_count data = Some v"
  shows "1 \<le> fetch_count i \<and> fetch_count i \<le> 100"
  using assms
  by (auto simp: update_vk_integration_def update_clamps_fetch_count split: list.splits)

lemma request_count: "req_count (request_of E i) = batch_size i"
  by (simp add: request_of_def fetch_vk_posts_def Let_def)

text \<open>
  Claim C5 (fetch batch size within 1 to 100) fails on \<^verbatim>\<open>create_vk_integration\<close>, which
  stores the fetch count of the request as it comes, while \<^verbatim>\<open>update_vk_integration\<close>
  clamps it (\<open>update_clamps_fetch_count\<close>); neither trigger clamps the stored count
  (\<open>request_count\<close>). A configuration created with the count 1000 is stored with 1000, and
  the ingestion tick and the manual trigger both ask the feed for 1000 posts.
\<close>

theorem create_keeps_fetch_count_unclamped:
  "fetch_count (fst (create_vk_integration (example_create 1000) empty_db)) = 1000 \<and>
   map req_count
     (snd (vk_fetch_tick test_env (\<lambda>k. 0)
        (snd (create_vk_integration (example_create 1000) empty_db)))) = [1000] \<and>
   map req_count
     (snd (snd (fetch_now test_env 0
        (snd (create_vk_integration (example_create 1000) empty_db))))) = [1000]"
  by code_simp

lemma wf_delete_integration: "wf_db d \<Longrightarrow> wf_db (delete_integration old d)"
  by (auto simp: wf_db_def delete_integration_def list_all_iff distinct_map_filter)

lemma wf_create_vk_integration:
  assumes "wf_db d"
  shows "wf_db (snd (create_vk_integration data d))"
proof -
  have add: "wf_db (d1\<lparr>integrations_tbl := integrations_tbl d1 @ [i],
                integrations_seq := Suc (integrations_seq d1)\<rparr>)"
    if "wf_db d1" "vi_id i = integrations_seq d1" for d1 and i :: vk_integration
    using that by (auto simp: wf_db_def list_all_iff)
  show ?thesis
  proof (cases "integrations_tbl d")
    case Nil
    with add [OF assms] show ?thesis
      by (simp add: create_vk_integration_def Let_def)
  next
    case (Cons old rest)
    with add [OF wf_delete_integration [OF assms, of old]] show ?thesis
      by (simp add: create_vk_integration_def Let_def)
  qed
qed

text \<open>What \<^verbatim>\<open>create_vk_integration\<close> leaves of the two tables it writes.\<close>

lemma create_vk_integration_tables:
  assumes "wf_db d"
  shows "integrations_tbl (snd (create_vk_integration data d)) =
       tl (integrations_tbl d) @ [fst (create_vk_integration data d)] \<and>
     imported_tbl (snd (create_vk_integration data d)) =
       (case integrations_tbl d of
          [] \<Rightarrow> imported_tbl d
        | old # rest \<Rightarrow> filter (\<lambda>r. vk_integration_id r \<noteq> vi_id old) (imported_tbl d)) \<and>
     vi_id (fst (create_vk_integration data d)) = integrations_seq d \<and>
     integrations_seq (snd (create_vk_integration data d)) = Suc (integrations_seq d) \<and>
     news_tbl (snd (create_vk_integration data d)) = news_tbl d \<and>
     news_seq (snd (create_vk_integration data d)) = news_seq d \<and>
     imported_seq (snd (create_vk_integration data d)) = imported_seq d"
proof (cases "integrations_tbl d")
  case Nil
  then show ?thesis
    by (simp add: create_vk_integration_def Let_def)
next
  case (Cons old rest)
  with assms have "vi_id old \<notin> vi_id ` set rest"
    by (simp add: wf_db_def)
  then have "\<forall>i\<in>set rest. vi_id i \<noteq> vi_id old"
    by (metis imageI)
  then have "filter (\<lambda>i. vi_id i \<noteq> vi_id old) rest = rest"
    by (simp add: filter_id_conv)
  with Cons show ?thesis
    by (simp add: create_vk_integration_def Let_def delete_integration_def)
qed

text \<open>
  Claim C10 (create replaces). Let the session satisfy the invariant.
  \<^verbatim>\<open>create_vk_integration\<close> stores a row made from the fields of the request, with the next
  key of the table, which no row had before, the default of \<^verbatim>\<open>is_enabled\<close> and no
  checkpoint. The first row of the table, the one the code selects as the old
  configuration, is deleted: neither it nor its key is in the table afterwards, the table
  is its other rows followed by the new row, and the ledger loses exactly the rows of the
  deleted integration. The articles are the same as before. When the table held at most
  one integration, it holds the new row and nothing else afterwards. When every ledger row
  belonged to an integration of the table (the foreign key of \<^verbatim>\<open>vk_imported_posts\<close>), the
  ledger is empty after the replacement of the only integration, and the import under the
  new integration of any post with a text and a date \<^verbatim>\<open>datetime\<close> can hold appends one
  more article: a post imported under the replaced configuration is imported again, beside
  the article it made before.
\<close>

theorem create_replaces_configuration:
  assumes "wf_db d"
  shows
    "fst (create_vk_integration data d) =
       \<lparr>vi_id = integrations_seq d, group_id = c_group_id data,
        access_token = c_access_token data, is_enabled = False, mode = c_mode data,
        default_category_id = c_default_category_id data,
        auto_publish = c_auto_publish data,
        check_interval_minutes = c_check_interval_minutes data,
        fetch_count = c_fetch_count data,
        hashtag_category_map =
          (case c_hashtag_category_map data of
             None \<Rightarrow> None
           | Some m \<Rightarrow> if m = [] then None else Some m),
        last_checked_at = None\<rparr> \<and>
     integrations_seq d \<notin> vi_id ` set (integrations_tbl d) \<and>
     integrations_seq (snd (create_vk_integration data d)) = Suc (integrations_seq d) \<and>
     integrations_tbl (snd (create_vk_integration data d)) =
       tl (integrations_tbl d) @ [fst (create_vk_integration data d)] \<and>
     (\<forall>old rest. integrations_tbl d = old # rest \<longrightarrow>
        old \<notin> set (integrations_tbl (snd (create_vk_integration data d))) \<and>
        vi_id old \<notin> vi_id ` set (integrations_tbl (snd (create_vk_integration data d))) \<and>
        imported_tbl (snd (create_vk_integration data d)) =
          filter (\<lambda>r. vk_integration_id r \<noteq> vi_id old) (imported_tbl d)) \<and>
     (integrations_tbl d = [] \<longrightarrow>
        imported_tbl (snd (create_vk_integration data d)) = imported_tbl d) \<and>
     news_tbl (snd (create_vk_integration data d)) = news_tbl d \<and>
     wf_db (snd (create_vk_integration data d)) \<and>
     (length (integrations_tbl d) \<le> 1 \<longrightarrow>
        integrations_tbl (snd (create_vk_integration data d)) =
          [fst (create_vk_integration data d)]) \<and>
     (list_all (\<lambda>r. vk_integration_id r \<in> vi_id ` set (integrations_tbl d)) (imported_tbl d) \<longrightarrow>
        (length (integrations_tbl d) \<le> 1 \<longrightarrow>
           imported_tbl (snd (create_vk_integration data d)) = []) \<and>
        (\<forall>post t. post_text post = Some t \<and> t \<noteq> [] \<and> valid_timestamp (post_date post) \<longrightarrow>
           (\<exists>a. fst (import_vk_post E post (fst (create_vk_integration data d))
                    (snd (create_vk_integration data d))) = Inr (Some a) \<and>
                news_tbl (snd (import_vk_post E post (fst (create_vk_integration data d))
                    (snd (create_vk_integration data d)))) = news_tbl d @ [a])))"
proof -
  let ?i = "fst (create_vk_integration data d)"
  let ?d = "snd (create_vk_integration data d)"
  note tables = create_vk_integration_tables [OF assms, of data]
  from tables have tbls: "integrations_tbl ?d = tl (integrations_tbl d) @ [?i]"
    "vi_id ?i = integrations_seq d" "integrations_seq ?d = Suc (integrations_seq d)"
    "news_tbl ?d = news_tbl d"
    by blast+
  have row: "?i =
       \<lparr>vi_id = integrations_seq d, group_id = c_group_id data,
        access_token = c_access_token data, is_enabled = False, mode = c_mode data,
        default_category_id = c_default_category_id data,
        auto_publish = c_auto_publish data,
        check_interval_minutes = c_check_interval_minutes data,
        fetch_count = c_fetch_count data,
        hashtag_category_map =
          (case c_hashtag_category_map data of
             None \<Rightarrow> None
           | Some m \<Rightarrow> if m = [] then None else Some m),
        last_checked_at = None\<rparr>"
    using tbls(2) by (simp add: create_vk_integration_def Let_def)
  from assms have below: "\<forall>j\<in>set (integrations_tbl d). vi_id j < integrations_seq d"
    and ids: "distinct (map vi_id (integrations_tbl d))"
    by (simp_all add: wf_db_def list_all_iff)
  from below have fresh: "integrations_seq d \<notin> vi_id ` set (integrations_tbl d)"
    by auto
  have wf: "wf_db ?d"
    using assms by (rule wf_create_vk_integration)
  have deleted: "old \<notin> set (integrations_tbl ?d) \<and>
      vi_id old \<notin> vi_id ` set (integrations_tbl ?d) \<and>
      imported_tbl ?d = filter (\<lambda>r. vk_integration_id r \<noteq> vi_id old) (imported_tbl d)"
    if "integrations_tbl d = old # rest" for old rest
  proof -
    from that ids have "vi_id old \<notin> vi_id ` set rest" by simp
    moreover from that below have "vi_id old \<noteq> integrations_seq d" by auto
    ultimately have "vi_id old \<notin> vi_id ` set (integrations_tbl ?d)"
      using that tbls(1,2) by auto
    moreover from this have "old \<notin> set (integrations_tbl ?d)" by blast
    moreover from tables that
    have "imported_tbl ?d = filter (\<lambda>r. vk_integration_id r \<noteq> vi_id old) (imported_tbl d)"
      by simp
    ultimately show ?thesis by blast
  qed
  have kept: "imported_tbl ?d = imported_tbl d" if "integrations_tbl d = []"
    using tables that by simp
  have single: "integrations_tbl ?d = [?i]" if "length (integrations_tbl d) \<le> 1"
    using that tbls(1) by (cases "integrations_tbl d") simp_all
  have ledger: "(length (integrations_tbl d) \<le> 1 \<longrightarrow> imported_tbl ?d = []) \<and>
      (\<forall>post t. post_text post = Some t \<and> t \<noteq> [] \<and> valid_timestamp (post_date post) \<longrightarrow>
         (\<exists>a. fst (import_vk_post E post ?i ?d) = Inr (Some a) \<and>
              news_tbl (snd (import_vk_post E post ?i ?d)) = news_tbl d @ [a]))"
    if fk: "list_all (\<lambda>r. vk_integration_id r \<in> vi_id ` set (integrations_tbl d))
      (imported_tbl d)"
  proof (intro conjI impI allI)
    assume one: "length (integrations_tbl d) \<le> 1"
    show "imported_tbl ?d = []"
    proof (cases "integrations_tbl d")
      case Nil
      with fk have "imported_tbl d = []"
        by (cases "imported_tbl d") simp_all
      with kept [OF Nil] show ?thesis by simp
    next
      case (Cons old rest)
      with one have "rest = []" by simp
      with Cons fk have "filter (\<lambda>r. vk_integration_id r \<noteq> vi_id old) (imported_tbl d) = []"
        by (auto simp: filter_empty_conv list_all_iff)
      with deleted [OF Cons] show ?thesis by simp
    qed
  next
    fix post :: vk_post and t
    assume p: "post_text post = Some t \<and> t \<noteq> [] \<and> valid_timestamp (post_date post)"
    have "set (imported_tbl ?d) \<subseteq> set (imported_tbl d)"
      using tables by (auto split: list.splits)
    moreover from fk fresh
    have "\<forall>r\<in>set (imported_tbl d). vk_integration_id r \<noteq> integrations_seq d"
      unfolding list_all_iff by metis
    ultimately
    have "\<forall>r\<in>set (imported_tbl ?d). vk_integration_id r \<noteq> integrations_seq d"
      by blast
    then have none: "existing_records post ?i ?d = []"
      by (auto simp: existing_records_def tbls(2) filter_empty_conv)
    from p have nonempty: "t \<noteq> []" "post_text post = Some t"
      and valid: "valid_timestamp (post_date post)"
      by simp_all
    from create_article_result [OF wf valid, of E t ?i] import_fresh [OF nonempty none, of E]
    show "\<exists>a. fst (import_vk_post E post ?i ?d) = Inr (Some a) \<and>
        news_tbl (snd (import_vk_post E post ?i ?d)) = news_tbl d @ [a]"
      by (auto simp: with_article_def tbls(4))
  qed
  from row fresh tbls(3,1) deleted kept tbls(4) wf single ledger show ?thesis
    by blast
qed

theorem create_replaces_configuration_witness:
  "length (existing_records (text_post 7 (lit ''Hello'')) (integ 1 (lit ''auto'')) imported_db) = 1 \<and>
   integ 1 (lit ''auto'') \<notin>
     set (integrations_tbl (snd (create_vk_integration (example_create 5) imported_db))) \<and>
   integrations_tbl (snd (create_vk_integration (example_create 5) imported_db)) =
     [\<lparr>vi_id = 2, group_id = lit ''examplegroup'', access_token = lit ''secret'',
       is_enabled = False, mode = lit ''auto'', default_category_id = None,
       auto_publish = True, check_interval_minutes = 10, fetch_count = 5,
       hashtag_category_map = None, last_checked_at = None\<rparr>] \<and>
   imported_tbl (snd (create_vk_integration (example_create 5) imported_db)) = [] \<and>
   news_tbl (snd (create_vk_integration (example_create 5) imported_db)) =
     [article 1 (lit ''hello'') True None] \<and>
   (\<exists>a. news_tbl (snd (import_vk_post test_env (text_post 7 (lit ''Hello''))
            (fst (create_vk_integration (example_create 5) imported_db))
            (snd (create_vk_integration (example_create 5) imported_db)))) =
        [article 1 (lit ''hello'') True None, a])"
proof -
  let ?d = "snd (create_vk_integration (example_create 5) imported_db)"
  have one: "length (integrations_tbl imported_db) \<le> 1"
    by (simp add: imported_db_def)
  have fk: "list_all (\<lambda>r. vk_integration_id r \<in> vi_id ` set (integrations_tbl imported_db))
      (imported_tbl imported_db)"
    by (simp add: imported_db_def ledger_def integ_def)
  have old: "integrations_tbl imported_db = integ 1 (lit ''auto'') # []"
    by (simp add: imported_db_def)
  note T = create_replaces_configuration [OF wf_imported_db, of "example_create 5" test_env]
  have p: "post_text (text_post 7 (lit ''Hello'')) = Some (lit ''Hello'') \<and> lit ''Hello'' \<noteq> [] \<and>
      valid_timestamp (post_date (text_post 7 (lit ''Hello'')))"
    by (simp add: text_post_def lit_def valid_timestamp_def)
  have news: "news_tbl imported_db = [article 1 (lit ''hello'') True None]"
    by (simp add: imported_db_def)
  have before: "length (existing_records (text_post 7 (lit ''Hello'')) (integ 1 (lit ''auto''))
      imported_db) = 1"
    by (simp add: existing_records_def imported_db_def ledger_def text_post_def integ_def)
  note row = T [THEN conjunct1]
  note gone = T [THEN conjunct2, THEN conjunct2, THEN conjunct2, THEN conjunct2,
      THEN conjunct1, rule_format, OF old, THEN conjunct1]
  note same = T [THEN conjunct2, THEN conjunct2, THEN conjunct2, THEN conjunct2,
      THEN conjunct2, THEN conjunct2, THEN conjunct1]
  note single = T [THEN conjunct2, THEN conjunct2, THEN conjunct2, THEN conjunct2,
      THEN conjunct2, THEN conjunct2, THEN conjunct2, THEN conjunct2, THEN conjunct1,
      rule_format, OF one]
  note ledger = T [THEN conjunct2, THEN conjunct2, THEN conjunct2, THEN conjunct2,
      THEN conjunct2, THEN conjunct2, THEN conjunct2, THEN conjunct2, THEN conjunct2,
      rule_format, OF fk]
  have table: "integrations_tbl ?d =
     [\<lparr>vi_id = 2, group_id = lit ''examplegroup'', access_token = lit ''secret'',
       is_enabled = False, mode = lit ''auto'', default_category_id = None,
       auto_publish = True, check_interval_minutes = 10, fetch_count = 5,
       hashtag_category_map = None, last_checked_at = None\<rparr>]"
    unfolding single row by (simp add: example_create_def imported_db_def empty_db_def)
  from ledger [THEN conjunct2, rule_format, OF p]
  have again: "\<exists>a. news_tbl (snd (import_vk_post test_env (text_post 7 (lit ''Hello''))
            (fst (create_vk_integration (example_create 5) imported_db)) ?d)) =
        [article 1 (lit ''hello'') True None, a]"
    by (auto simp: news)
  from ledger [THEN conjunct1, rule_format, OF one] have empty: "imported_tbl ?d = []" .
  from same have articles: "news_tbl ?d = [article 1 (lit ''hello'') True None]"
    by (simp add: news)
  from before gone table empty articles again show ?thesis by blast
qed

subsection \<open>The invariant is kept\<close>

text \<open>
  The import of a post, whether it returns or raises, both triggers, the publisher and
  the update of the configuration keep the invariant.
\<close>

lemma wf_import_vk_post:
  assumes "wf_db d"
  shows "wf_db (snd (import_vk_post E post integration d))"
  using import_frame [OF assms, of E post integration] by blast

lemma wf_poll_all:
  assumes "wf_db d"
  shows "wf_db (fst (poll_all E clock k is d))"
  using poll_all_keeps [OF assms, of E clock k "is"] by blast

lemma wf_vk_fetch_tick: "wf_db d \<Longrightarrow> wf_db (fst (vk_fetch_tick E clock d))"
  unfolding vk_fetch_tick_def by (rule wf_poll_all)

lemma wf_fetch_now:
  assumes "wf_db d"
  shows "wf_db (fst (snd (fetch_now E now d)))"
proof (cases "integrations_tbl d")
  case Nil
  with assms show ?thesis by (simp add: fetch_now_def)
next
  case (Cons i rest)
  show ?thesis
  proof (cases "mode i = lit ''off''")
    case True
    with Cons assms show ?thesis by (simp add: fetch_now_def)
  next
    case False
    show ?thesis
    proof (cases "wall_get E (request_of E i)")
      case (Wall posts)
      from import_posts_frame [OF assms, of E i posts 0]
      have "wf_db (snd (import_posts E i posts 0 d))" by blast
      with Cons False Wall show ?thesis
        by (cases "import_posts E i posts 0 d")
          (simp add: fetch_now_def fetch_vk_posts_request_of wf_set_last_checked
            split: sum.splits error.splits)
    qed (use Cons False assms in \<open>simp_all add: fetch_now_def fetch_vk_posts_request_of\<close>)
  qed
qed

lemma wf_publisher_tick:
  assumes "wf_db d"
  shows "wf_db (publisher_tick now d)"
proof -
  let ?f = "\<lambda>n. if due now n then publish now n else n"
  have ids: "map (n_id \<circ> ?f) xs = map n_id xs" and slugs: "map (slug \<circ> ?f) xs = map slug xs" for xs
    by (induction xs) (auto simp: publish_def)
  have keys: "list_all (\<lambda>n. 0 < n_id n \<and> n_id n < k) (map ?f xs) =
      list_all (\<lambda>n. 0 < n_id n \<and> n_id n < k) xs" for k xs
    by (induction xs) (auto simp: publish_def)
  from assms show ?thesis
    unfolding wf_db_def publisher_tick_def by (simp add: ids slugs keys)
qed

lemma vi_id_apply_update: "vi_id (apply_update data i) = vi_id i"
  by (simp add: apply_update_def Let_def split: option.splits)

lemma wf_update_vk_integration:
  assumes "wf_db d" and "update_vk_integration data d = Inr (i, d')"
  shows "wf_db d'"
  using assms
  by (auto simp: update_vk_integration_def wf_db_def vi_id_apply_update split: list.splits)

end
